theory Spec2Isabelle
  imports Main "HOL-Library.Word"
begin

unbundle bit_operations_syntax

section \<open>C++ integer arithmetic\<close>

text \<open>
  The solver computes on C++ \<open>int\<close>. Every value it handles is a score, a board size or
  a table byte, far inside the 32-bit range, so \<open>int\<close> models it; what differs from HOL is
  the division, which truncates towards zero.
\<close>

definition tdiv :: "int \<Rightarrow> int \<Rightarrow> int" where
  "tdiv a b = sgn a * sgn b * (\<bar>a\<bar> div \<bar>b\<bar>)"

definition tmod :: "int \<Rightarrow> int \<Rightarrow> int" where
  "tmod a b = a - tdiv a b * b"

lemma tdiv2_nonneg: "0 \<le> a \<Longrightarrow> tdiv a 2 = a div 2"
  by (cases "a = 0") (simp_all add: tdiv_def)

lemma tdiv2_neg: "a \<le> 0 \<Longrightarrow> tdiv a 2 = - ((- a) div 2)"
  by (cases "a = 0") (simp_all add: tdiv_def)

lemma tmod2_nonneg: "0 \<le> a \<Longrightarrow> tmod a 2 = a mod 2"
  by (simp add: tmod_def tdiv2_nonneg minus_div_mult_eq_mod)

section \<open>The interfaces the solver consumes\<close>

type_synonym uint64 = "64 word"
type_synonym uint8 = "8 word"

text \<open>
  \<open>Position.hpp\<close> is not part of the sources at hand: the solver is modelled over the
  interface it calls, one field per member of \<open>Position\<close> that \<open>Solver.cpp\<close> and
  \<open>OpeningBook.hpp\<close> use. The board constants are fields as well.
\<close>

record 'p Position =
  WIDTH :: nat
  HEIGHT :: nat
  MIN_SCORE :: int
  MAX_SCORE :: int
  nbMoves :: "'p \<Rightarrow> nat"
  canWinNext :: "'p \<Rightarrow> bool"
  possible :: "'p \<Rightarrow> uint64"
  possibleNonLosingMoves :: "'p \<Rightarrow> uint64"
  moveScore :: "'p \<Rightarrow> uint64 \<Rightarrow> int"
  play :: "'p \<Rightarrow> uint64 \<Rightarrow> 'p"
  key :: "'p \<Rightarrow> uint64"
  key3 :: "'p \<Rightarrow> uint64"
  column_mask :: "int \<Rightarrow> uint64"

definition cells :: "'p Position \<Rightarrow> int" where
  "cells G = int (WIDTH G) * int (HEIGHT G)"

text \<open>
  Modelled from the spec: the transposition table (\<open>TranspositionTable.hpp\<close> is missing)
  maps a position key to one stored byte, 0 meaning absent; \<open>put\<close> overwrites.
\<close>

type_synonym TranspositionTable = "uint64 \<Rightarrow> uint8"

definition TranspositionTable_get :: "TranspositionTable \<Rightarrow> uint64 \<Rightarrow> uint8" where
  "TranspositionTable_get t k = t k"

definition TranspositionTable_put :: "TranspositionTable \<Rightarrow> uint64 \<Rightarrow> int \<Rightarrow> TranspositionTable" where
  "TranspositionTable_put t k v = t(k := of_int v)"

text \<open>
  Modelled from the spec: the move sorter (\<open>MoveSorter.hpp\<close> is missing) hands the added
  moves back in descending heuristic order, the move added last first among equal
  scores, and 0 when it is empty. The list is kept in the order of the visits.
\<close>

type_synonym MoveSorter = "(uint64 \<times> int) list"

definition MoveSorter_add :: "MoveSorter \<Rightarrow> uint64 \<Rightarrow> int \<Rightarrow> MoveSorter" where
  "MoveSorter_add ms move score =
     takeWhile (\<lambda>e. snd e > score) ms @ (move, score) # dropWhile (\<lambda>e. snd e > score) ms"

definition MoveSorter_getNext :: "MoveSorter \<Rightarrow> uint64 \<times> MoveSorter" where
  "MoveSorter_getNext ms = (case ms of [] \<Rightarrow> (0, []) | e # rest \<Rightarrow> (fst e, rest))"

text \<open>
  Modelled from the spec: the move chooser (\<open>MoveChooser.hpp\<close> is missing) is an arg-max
  helper. The spec leaves the choice among equal best scores open; the model keeps the
  first one recorded.
\<close>

type_synonym MoveChooser = "(uint64 \<times> int) option"

definition MoveChooser_add :: "MoveChooser \<Rightarrow> uint64 \<Rightarrow> int \<Rightarrow> MoveChooser" where
  "MoveChooser_add ch move score =
     (case ch of None \<Rightarrow> Some (move, score)
      | Some (m, s) \<Rightarrow> if score > s then Some (move, score) else Some (m, s))"

definition MoveChooser_getBestMove :: "MoveChooser \<Rightarrow> uint64" where
  "MoveChooser_getBestMove ch = (case ch of None \<Rightarrow> 0 | Some (m, s) \<Rightarrow> m)"

section \<open>The opening book\<close>

text \<open>
  The book owns its table through a raw pointer \<open>T\<close>. \<open>load\<close> deletes the table and
  leaves the pointer as it is, so the pointer has three states.
\<close>

datatype 'a ptr = Null | Live 'a | Dangling

datatype fault = OutOfFuel | UseAfterFree | DoubleFree | AssertFailed

record OpeningBook =
  T :: "(uint64 \<Rightarrow> uint8) ptr"
  width :: int
  height :: int
  depth :: int

definition OpeningBook_empty :: "int \<Rightarrow> int \<Rightarrow> OpeningBook" where
  "OpeningBook_empty w h = \<lparr>T = Null, width = w, height = h, depth = - 1\<rparr>"

definition OpeningBook_get :: "OpeningBook \<Rightarrow> 'p Position \<Rightarrow> 'p \<Rightarrow> fault + int" where
  "OpeningBook_get B G P =
     (if int (nbMoves G P) > depth B then Inr 0
      else case T B of
             Null \<Rightarrow> Inr 0
           | Live t \<Rightarrow> Inr (uint (t (key3 G P)))
           | Dangling \<Rightarrow> Inl UseAfterFree)"

text \<open>
  What \<open>load\<close> needs from the platform and from the missing table code: whether \<open>char\<close>
  is signed, the slot count of a table of a given log size, and the table that
  \<open>initTranspositionTable\<close> builds once its key and value arrays are read.
\<close>

record Platform =
  char_signed :: bool
  table_size :: "nat \<Rightarrow> nat"
  make_table :: "nat \<Rightarrow> nat \<Rightarrow> uint8 list \<Rightarrow> uint8 list \<Rightarrow> (uint64 \<Rightarrow> uint8)"

definition char_int :: "Platform \<Rightarrow> uint8 \<Rightarrow> int" where
  "char_int pl b = (if char_signed pl then sint b else uint b)"

datatype report =
    UnableToLoad
  | InvalidWidth "int option" int
  | InvalidHeight "int option" int
  | InvalidDepth "int option"
  | InvalidKeySize "int option"
  | InvalidValueSize "int option"
  | InvalidLogSize "int option"
  | InvalidKeyBytes int
  | UnimplementedSize int
  | UnableToInitialize
  | UnableToLoadData
  | Loaded int int int int int int

text \<open>One \<open>ifs.read(&c, 1)\<close>: the character read, if the stream had one, and the rest.\<close>

definition read_char :: "Platform \<Rightarrow> uint8 list \<Rightarrow> int option \<times> uint8 list" where
  "read_char pl bs = (case bs of [] \<Rightarrow> (None, []) | b # r \<Rightarrow> (Some (char_int pl b), r))"

definition delete_T :: "OpeningBook \<Rightarrow> fault + OpeningBook" where
  "delete_T B =
     (case T B of
        Null \<Rightarrow> Inr B
      | Live t \<Rightarrow> Inr (B\<lparr>T := Dangling\<rparr>)
      | Dangling \<Rightarrow> Inl DoubleFree)"

text \<open>
  The constructor that is handed a table, \<open>OpeningBook(width, height, depth, T)\<close>, and the
  destructor, which is \<open>delete T\<close>.
\<close>

definition OpeningBook_of :: "int \<Rightarrow> int \<Rightarrow> int \<Rightarrow> (uint64 \<Rightarrow> uint8) ptr \<Rightarrow> OpeningBook" where
  "OpeningBook_of w h d t = \<lparr>T = t, width = w, height = h, depth = d\<rparr>"

definition OpeningBook_destroy :: "OpeningBook \<Rightarrow> fault + unit" where
  "OpeningBook_destroy B = (case delete_T B of Inl f \<Rightarrow> Inl f | Inr B' \<Rightarrow> Inr ())"

definition initTranspositionTable :: "int \<Rightarrow> int \<Rightarrow> (nat \<times> nat) option \<times> report list" where
  "initTranspositionTable key_bytes log_size =
     (if key_bytes = 1 \<or> key_bytes = 2 \<or> key_bytes = 4 then
        (if log_size = 14 \<or> (21 \<le> log_size \<and> log_size \<le> 27)
         then (Some (nat key_bytes, nat log_size), [])
         else (None, [UnimplementedSize log_size]))
      else (None, [InvalidKeyBytes key_bytes]))"

definition load_table ::
  "Platform \<Rightarrow> OpeningBook \<Rightarrow> int \<Rightarrow> int \<Rightarrow> int \<Rightarrow> int \<Rightarrow> uint8 list \<Rightarrow> bool
     \<Rightarrow> OpeningBook \<times> report list" where
  "load_table pl B d key_bytes value_bytes log_size bs show =
     (case initTranspositionTable key_bytes log_size of
        (None, msgs) \<Rightarrow>
          (let B' = B\<lparr>T := Null\<rparr> in
           (B', msgs @ [UnableToInitialize] @
                (if show then [Loaded (width B') (height B') (depth B') key_bytes value_bytes log_size]
                 else [])))
      | (Some (kb, ls), msgs) \<Rightarrow>
          (let n = table_size pl ls;
               ks = take (n * kb) bs;
               vs = take (n * nat value_bytes) (drop (n * kb) bs);
               B' = B\<lparr>T := Live (make_table pl kb ls ks vs)\<rparr>
           in if length bs < n * kb + n * nat value_bytes
              then (B', msgs @ [UnableToLoadData])
              else (let B'' = B'\<lparr>depth := d\<rparr> in
                    (B'', msgs @
                       (if show then [Loaded (width B'') (height B'') (depth B'') key_bytes value_bytes log_size]
                        else [])))))"

definition OpeningBook_load ::
  "Platform \<Rightarrow> OpeningBook \<Rightarrow> uint8 list option \<Rightarrow> bool \<Rightarrow> fault + (OpeningBook \<times> report list)" where
  "OpeningBook_load pl B0 file show =
     (case delete_T (B0\<lparr>depth := - 1\<rparr>) of
        Inl f \<Rightarrow> Inl f
      | Inr B \<Rightarrow>
     (case file of
        None \<Rightarrow> Inr (B, [UnableToLoad])
      | Some bs0 \<Rightarrow>
     (case read_char pl bs0 of (w, bs1) \<Rightarrow>
      if w \<noteq> Some (width B) then Inr (B, [InvalidWidth w (width B)]) else
     (case read_char pl bs1 of (h, bs2) \<Rightarrow>
      if h \<noteq> Some (height B) then Inr (B, [InvalidHeight h (height B)]) else
     (case read_char pl bs2 of (d, bs3) \<Rightarrow>
      if d = None \<or> the d > width B * height B then Inr (B, [InvalidDepth d]) else
     (case read_char pl bs3 of (kb, bs4) \<Rightarrow>
      if kb = None \<or> the kb > 8 then Inr (B, [InvalidKeySize kb]) else
     (case read_char pl bs4 of (vb, bs5) \<Rightarrow>
      if vb \<noteq> Some 1 then Inr (B, [InvalidValueSize vb]) else
     (case read_char pl bs5 of (ls, bs6) \<Rightarrow>
      if ls = None \<or> the ls > 40 then Inr (B, [InvalidLogSize ls]) else
      Inr (load_table pl B (the d) (the kb) 1 (the ls) bs6 show)))))))))"

text \<open>
  A platform for the concrete runs: \<open>char\<close> is signed, a table of log size \<open>n\<close> has \<open>2 ^ n\<close>
  slots, and the table built is empty.
\<close>

definition host :: Platform where
  "host = \<lparr>char_signed = True, table_size = (\<lambda>n. 2 ^ n), make_table = (\<lambda>kb ls ks vs k. 0)\<rparr>"

section \<open>The solver\<close>

record Solver =
  transTable :: TranspositionTable
  book :: OpeningBook
  columnOrder :: "int list"

text \<open>
  The constructor fills \<open>columnOrder\<close>; the product is divided as C++ divides it. The
  table starts empty and the book is the empty book of the board's size.
\<close>

definition columnOrder_at :: "nat \<Rightarrow> int \<Rightarrow> int" where
  "columnOrder_at w i = tdiv (int w) 2 + tdiv ((1 - 2 * tmod i 2) * (i + 1)) 2"

definition Solver_new :: "'p Position \<Rightarrow> Solver" where
  "Solver_new G =
     \<lparr>transTable = (\<lambda>k. 0),
      book = OpeningBook_empty (int (WIDTH G)) (int (HEIGHT G)),
      columnOrder = map (\<lambda>i. columnOrder_at (WIDTH G) (int i)) [0..<WIDTH G]\<rparr>"

text \<open>
  The two bytes \<open>negamax\<close> writes, as the \<open>int\<close> handed to \<open>put\<close>, and the two ways it
  reads a byte back.
\<close>

definition lower_bound_byte :: "'p Position \<Rightarrow> int \<Rightarrow> int" where
  "lower_bound_byte G score = score + MAX_SCORE G - 2 * MIN_SCORE G + 2"

definition upper_bound_byte :: "'p Position \<Rightarrow> int \<Rightarrow> int" where
  "upper_bound_byte G alpha = alpha - MIN_SCORE G + 1"

definition is_lower_bound :: "'p Position \<Rightarrow> int \<Rightarrow> bool" where
  "is_lower_bound G val \<longleftrightarrow> val > MAX_SCORE G - MIN_SCORE G + 1"

definition decode_lower :: "'p Position \<Rightarrow> int \<Rightarrow> int" where
  "decode_lower G val = val + 2 * MIN_SCORE G - MAX_SCORE G - 2"

definition decode_upper :: "'p Position \<Rightarrow> int \<Rightarrow> int" where
  "decode_upper G val = val + MIN_SCORE G - 1"

text \<open>
  The window is narrowed four times by the same two statements:
  \<^verbatim>\<open>if(alpha < min) { alpha = min; if(alpha >= beta) return alpha; }\<close> and
  \<^verbatim>\<open>if(beta > max) { beta = max; if(alpha >= beta) return beta; }\<close>.
\<close>

datatype window = Return int | Window int int

definition raise_alpha :: "int \<Rightarrow> int \<Rightarrow> int \<Rightarrow> window" where
  "raise_alpha alpha beta mn =
     (if alpha < mn then (if mn \<ge> beta then Return mn else Window mn beta)
      else Window alpha beta)"

definition lower_beta :: "int \<Rightarrow> int \<Rightarrow> int \<Rightarrow> window" where
  "lower_beta alpha beta mx =
     (if beta > mx then (if alpha \<ge> mx then Return mx else Window alpha mx)
      else Window alpha beta)"

definition table_window :: "'p Position \<Rightarrow> int \<Rightarrow> int \<Rightarrow> int \<Rightarrow> window" where
  "table_window G val alpha beta =
     (if val \<noteq> 0 then
        (if is_lower_bound G val then raise_alpha alpha beta (decode_lower G val)
         else lower_beta alpha beta (decode_upper G val))
      else Window alpha beta)"

text \<open>
  The moves of a bitmask, column by column:
  \<^verbatim>\<open>for(int i = WIDTH; i--;) if(move = possible & column_mask(columnOrder[i])) moves.add(...)\<close>.
\<close>

definition sort_moves :: "'p Position \<Rightarrow> Solver \<Rightarrow> 'p \<Rightarrow> uint64 \<Rightarrow> MoveSorter" where
  "sort_moves G S P poss =
     foldl (\<lambda>ms i. let move = poss AND column_mask G (columnOrder S ! i)
                    in if move \<noteq> 0 then MoveSorter_add ms move (moveScore G P move) else ms)
           [] (rev [0..<WIDTH G])"

text \<open>
  The \<open>while\<close> loop of \<open>negamax\<close> over the sorted moves; \<open>rec\<close> is the recursive call.
\<close>

fun explore ::
  "('p \<Rightarrow> int \<Rightarrow> int \<Rightarrow> Solver \<Rightarrow> fault + (int \<times> Solver)) \<Rightarrow> 'p Position \<Rightarrow> 'p
     \<Rightarrow> MoveSorter \<Rightarrow> int \<Rightarrow> int \<Rightarrow> Solver \<Rightarrow> fault + (int \<times> Solver)" where
  "explore rec G P [] alpha beta S =
     Inr (alpha, S\<lparr>transTable :=
                     TranspositionTable_put (transTable S) (key G P) (upper_bound_byte G alpha)\<rparr>)"
| "explore rec G P (e # moves) alpha beta S =
     (let next = fst e in
      if next = 0 then
        Inr (alpha, S\<lparr>transTable :=
                        TranspositionTable_put (transTable S) (key G P) (upper_bound_byte G alpha)\<rparr>)
      else
        (case rec (play G P next) (- beta) (- alpha) S of
           Inl f \<Rightarrow> Inl f
         | Inr (v, S') \<Rightarrow>
             (let score = - v in
              if score \<ge> beta then
                Inr (score, S'\<lparr>transTable :=
                                 TranspositionTable_put (transTable S') (key G P) (lower_bound_byte G score)\<rparr>)
              else explore rec G P moves (if score > alpha then score else alpha) beta S')))"

text \<open>The head of the list is what \<open>moves.getNext()\<close> hands out, and 0 ends the loop.\<close>

lemma explore_getNext:
  "explore rec G P ms alpha beta S =
     (case MoveSorter_getNext ms of
        (next, rest) \<Rightarrow>
          if next = 0 then
            Inr (alpha, S\<lparr>transTable :=
                            TranspositionTable_put (transTable S) (key G P) (upper_bound_byte G alpha)\<rparr>)
          else
            (case rec (play G P next) (- beta) (- alpha) S of
               Inl f \<Rightarrow> Inl f
             | Inr (v, S') \<Rightarrow>
                 if - v \<ge> beta then
                   Inr (- v, S'\<lparr>transTable :=
                                   TranspositionTable_put (transTable S') (key G P) (lower_bound_byte G (- v))\<rparr>)
                 else explore rec G P rest (if - v > alpha then - v else alpha) beta S'))"
  by (cases ms) (simp_all add: MoveSorter_getNext_def Let_def split: sum.splits prod.splits)

text \<open>
  \<open>negamax\<close>, with the depth of the C++ recursion as fuel: a call that would recurse
  deeper than the fuel allows is \<open>Inl OutOfFuel\<close>. The two \<open>assert\<close>s at the head are
  the preconditions of the theorems below, not branches.
\<close>

primrec negamax_fuel ::
  "nat \<Rightarrow> 'p Position \<Rightarrow> 'p \<Rightarrow> int \<Rightarrow> int \<Rightarrow> int \<Rightarrow> Solver \<Rightarrow> fault + (int \<times> Solver)" where
  "negamax_fuel 0 G P alpha beta d S = Inl OutOfFuel"
| "negamax_fuel (Suc n) G P alpha beta d S =
     (let poss = possibleNonLosingMoves G P in
      if poss = 0 then Inr (tdiv (- (cells G - int (nbMoves G P))) 2, S)
      else if int (nbMoves G P) \<ge> cells G - 2 then Inr (0, S)
      else
      (case raise_alpha alpha beta (tdiv (- (cells G - 2 - int (nbMoves G P))) 2) of
         Return v \<Rightarrow> Inr (v, S)
       | Window alpha1 beta1 \<Rightarrow>
      (case lower_beta alpha1 beta1 (tdiv (cells G - 1 - int (nbMoves G P)) 2) of
         Return v \<Rightarrow> Inr (v, S)
       | Window alpha2 beta2 \<Rightarrow>
      (case table_window G (uint (TranspositionTable_get (transTable S) (key G P))) alpha2 beta2 of
         Return v \<Rightarrow> Inr (v, S)
       | Window alpha3 beta3 \<Rightarrow>
      (case OpeningBook_get (book S) G P of
         Inl f \<Rightarrow> Inl f
       | Inr val \<Rightarrow>
      if val \<noteq> 0 then Inr (val + MIN_SCORE G - 1, S)
      else if d = 0 then Inr (0, S)
      else
        explore (\<lambda>P2 a b S2. negamax_fuel n G P2 a b (if d > 0 then d - 1 else d) S2)
          G P (sort_moves G S P poss) alpha3 beta3 S)))))"

text \<open>The board has \<open>WIDTH * HEIGHT\<close> cells, and no C++ recursion is deeper.\<close>

definition negamax :: "'p Position \<Rightarrow> 'p \<Rightarrow> int \<Rightarrow> int \<Rightarrow> int \<Rightarrow> Solver \<Rightarrow> fault + (int \<times> Solver)" where
  "negamax G P alpha beta d S = negamax_fuel (Suc (WIDTH G * HEIGHT G)) G P alpha beta d S"

text \<open>
  The part of \<open>negamax\<close> before the loop, on its own: it either returns a value, and then
  nothing is stored, or it reaches the loop with the window it has narrowed.
\<close>

definition negamax_head ::
  "'p Position \<Rightarrow> 'p \<Rightarrow> int \<Rightarrow> int \<Rightarrow> int \<Rightarrow> Solver \<Rightarrow> fault + window" where
  "negamax_head G P alpha beta d S =
     (let poss = possibleNonLosingMoves G P in
      if poss = 0 then Inr (Return (tdiv (- (cells G - int (nbMoves G P))) 2))
      else if int (nbMoves G P) \<ge> cells G - 2 then Inr (Return 0)
      else
      (case raise_alpha alpha beta (tdiv (- (cells G - 2 - int (nbMoves G P))) 2) of
         Return v \<Rightarrow> Inr (Return v)
       | Window alpha1 beta1 \<Rightarrow>
      (case lower_beta alpha1 beta1 (tdiv (cells G - 1 - int (nbMoves G P)) 2) of
         Return v \<Rightarrow> Inr (Return v)
       | Window alpha2 beta2 \<Rightarrow>
      (case table_window G (uint (TranspositionTable_get (transTable S) (key G P))) alpha2 beta2 of
         Return v \<Rightarrow> Inr (Return v)
       | Window alpha3 beta3 \<Rightarrow>
      (case OpeningBook_get (book S) G P of
         Inl f \<Rightarrow> Inl f
       | Inr val \<Rightarrow>
      if val \<noteq> 0 then Inr (Return (val + MIN_SCORE G - 1))
      else if d = 0 then Inr (Return 0)
      else Inr (Window alpha3 beta3))))))"

lemma negamax_fuel_head:
  "negamax_fuel (Suc n) G P alpha beta d S =
     (case negamax_head G P alpha beta d S of
        Inl f \<Rightarrow> Inl f
      | Inr (Return v) \<Rightarrow> Inr (v, S)
      | Inr (Window a b) \<Rightarrow>
          explore (\<lambda>P2 a b S2. negamax_fuel n G P2 a b (if d > 0 then d - 1 else d) S2)
            G P (sort_moves G S P (possibleNonLosingMoves G P)) a b S)"
  by (simp add: negamax_head_def Let_def split: window.splits sum.splits)

definition midpoint :: "int \<Rightarrow> int \<Rightarrow> int" where
  "midpoint mn mx =
     (let med = mn + tdiv (mx - mn) 2 in
      if med \<le> 0 \<and> tdiv mn 2 < med then tdiv mn 2
      else if med \<ge> 0 \<and> tdiv mx 2 > med then tdiv mx 2
      else med)"

lemma midpoint_range: "mn < mx \<Longrightarrow> mn \<le> midpoint mn mx \<and> midpoint mn mx < mx"
proof -
  assume lt: "mn < mx"
  have half: "tdiv (mx - mn) 2 = (mx - mn) div 2"
    using lt by (simp add: tdiv2_nonneg)
  have a: "mn \<le> tdiv mn 2" if "tdiv mn 2 < 0"
  proof (cases "mn \<le> 0")
    case True
    then show ?thesis by (simp add: tdiv2_neg; presburger)
  next
    case False
    with that show ?thesis by (simp add: tdiv2_nonneg)
  qed
  have b: "tdiv mx 2 < mx" if "0 < tdiv mx 2"
  proof (cases "mx \<le> 0")
    case True
    with that show ?thesis by (simp add: tdiv2_neg; presburger)
  next
    case False
    then show ?thesis by (simp add: tdiv2_nonneg; presburger)
  qed
  have c: "mn \<le> mn + (mx - mn) div 2" "mn + (mx - mn) div 2 < mx"
    using lt by presburger+
  show ?thesis
    unfolding midpoint_def Let_def half
    using a b c by (auto simp: not_le not_less; linarith)
qed

text \<open>
  The \<open>while\<close> loop of \<open>solve\<close>. It returns both ends of the window it stops at; \<open>solve\<close>
  returns the lower one.
\<close>

function solve_loop ::
  "'p Position \<Rightarrow> 'p \<Rightarrow> int \<Rightarrow> int \<Rightarrow> int \<Rightarrow> Solver \<Rightarrow> fault + ((int \<times> int) \<times> Solver)" where
  "solve_loop G P d mn mx S =
     (if mn < mx then
        (case negamax G P (midpoint mn mx) (midpoint mn mx + 1) d S of
           Inl f \<Rightarrow> Inl f
         | Inr (r, S') \<Rightarrow>
             if r \<le> midpoint mn mx then solve_loop G P d mn r S'
             else solve_loop G P d r mx S')
      else Inr ((mn, mx), S))"
  by pat_completeness auto
termination
proof (relation "measure (\<lambda>(G, P, d, mn, mx, S). nat (mx - mn))", goal_cases)
  case 1
  show ?case by simp
next
  case (2 G P d mn mx S x r S')
  then show ?case using midpoint_range [of mn mx] by auto
next
  case (3 G P d mn mx S x r S')
  then show ?case using midpoint_range [of mn mx] by auto
qed

declare solve_loop.simps [simp del]

definition solve :: "'p Position \<Rightarrow> 'p \<Rightarrow> int \<Rightarrow> bool \<Rightarrow> Solver \<Rightarrow> fault + (int \<times> Solver)" where
  "solve G P d weak S =
     (if canWinNext G P then Inr (tdiv (cells G + 1 - int (nbMoves G P)) 2, S)
      else
        (let mn = (if weak then - 1 else tdiv (- (cells G - int (nbMoves G P))) 2);
             mx = (if weak then 1 else tdiv (cells G + 1 - int (nbMoves G P)) 2)
         in case solve_loop G P d mn mx S of
              Inl f \<Rightarrow> Inl f
            | Inr ((mn', mx'), S') \<Rightarrow> Inr (mn', S')))"

text \<open>
  \<open>getMoveColumn\<close>: the highest column whose mask meets the move; the C++ runs into
  \<open>assert(false)\<close> when there is none.
\<close>

definition getMoveColumn :: "'p Position \<Rightarrow> uint64 \<Rightarrow> int option" where
  "getMoveColumn G move =
     (case filter (\<lambda>i. move AND column_mask G (int i) \<noteq> 0) (rev [0..<WIDTH G]) of
        [] \<Rightarrow> None
      | i # _ \<Rightarrow> Some (int i))"

text \<open>
  The loop of \<open>getBestMove\<close> over the sorted moves. The lines it writes to \<open>std::cerr\<close>
  are left out, the call of \<open>getMoveColumn\<close> in them is not.
\<close>

fun rank_moves ::
  "'p Position \<Rightarrow> 'p \<Rightarrow> int \<Rightarrow> bool \<Rightarrow> MoveSorter \<Rightarrow> MoveChooser \<Rightarrow> Solver
     \<Rightarrow> fault + (MoveChooser \<times> Solver)" where
  "rank_moves G P d weak [] ch S = Inr (ch, S)"
| "rank_moves G P d weak (e # moves) ch S =
     (let next = fst e in
      if next = 0 then Inr (ch, S)
      else
        (case solve G (play G P next) d weak S of
           Inl f \<Rightarrow> Inl f
         | Inr (v, S') \<Rightarrow>
             (case getMoveColumn G next of
                None \<Rightarrow> Inl AssertFailed
              | Some c \<Rightarrow> rank_moves G P d weak moves (MoveChooser_add ch next (- v)) S')))"

definition getBestMove :: "'p Position \<Rightarrow> 'p \<Rightarrow> int \<Rightarrow> bool \<Rightarrow> Solver \<Rightarrow> fault + (int \<times> Solver)" where
  "getBestMove G P d weak S =
     (let poss = possible G P in
      if poss = 0 then Inr (- 1, S)
      else
        (case rank_moves G P d weak (sort_moves G S P poss) None S of
           Inl f \<Rightarrow> Inl f
         | Inr (ch, S') \<Rightarrow>
             (case getMoveColumn G (MoveChooser_getBestMove ch) of
                None \<Rightarrow> Inl AssertFailed
              | Some best \<Rightarrow> Inr (best, S'))))"

section \<open>The score of a position and the assumptions on the missing classes\<close>

text \<open>
  The legal moves of a position, as the bitmasks \<open>getBestMove\<close> enumerates: one per column
  whose mask meets \<open>possible\<close>.
\<close>

definition legal_moves :: "'p Position \<Rightarrow> 'p \<Rightarrow> uint64 list" where
  "legal_moves G P =
     filter (\<lambda>m. m \<noteq> 0) (map (\<lambda>c. possible G P AND column_mask G (int c)) [0..<WIDTH G])"

text \<open>
  The true score, in the words of the spec: the side to move scores
  \<open>(WIDTH * HEIGHT + 1 - nbMoves) / 2\<close> when it can win at once, a full board is a draw,
  and otherwise the score is the best of the negated scores of the positions one legal
  move away (exhaustive minimax). The first argument counts the free cells.
\<close>

fun minimax :: "nat \<Rightarrow> 'p Position \<Rightarrow> 'p \<Rightarrow> int" where
  "minimax 0 G P = 0"
| "minimax (Suc n) G P =
     (if canWinNext G P then (cells G + 1 - int (nbMoves G P)) div 2
      else (case map (\<lambda>m. - minimax n G (play G P m)) (legal_moves G P) of
              [] \<Rightarrow> 0
            | x # xs \<Rightarrow> Max (set (x # xs))))"

definition score :: "'p Position \<Rightarrow> 'p \<Rightarrow> int" where
  "score G P = minimax (nat (cells G - int (nbMoves G P))) G P"

text \<open>
  What the solver needs from the \<open>Position\<close> class it is given, over the positions
  \<open>valid\<close> it can meet (nobody has won yet): the move count stays within the board,
  a board that is not full has a legal move, a legal move leads to a valid position
  with one more stone, \<open>possibleNonLosingMoves\<close> holds in each column the legal move
  after which the opponent cannot win at once and nothing else, positions of equal key
  have equal scores, the scores of the positions \<open>negamax\<close> accepts lie between
  \<open>MIN_SCORE\<close> and \<open>MAX_SCORE\<close>, and the score constants leave the two byte ranges of
  the table room for the window bounds (\<open>k \<le> 3\<close> in the spec's formulas).
\<close>

definition position_ok :: "'p Position \<Rightarrow> ('p \<Rightarrow> bool) \<Rightarrow> bool" where
  "position_ok G valid \<longleftrightarrow>
     (\<forall>P. valid P \<longrightarrow> int (nbMoves G P) \<le> cells G) \<and>
     (\<forall>P. valid P \<longrightarrow> int (nbMoves G P) < cells G \<longrightarrow> legal_moves G P \<noteq> []) \<and>
     (\<forall>P m. valid P \<longrightarrow> \<not> canWinNext G P \<longrightarrow> m \<in> set (legal_moves G P) \<longrightarrow>
            valid (play G P m) \<and> nbMoves G (play G P m) = nbMoves G P + 1) \<and>
     (\<forall>P c. valid P \<longrightarrow> \<not> canWinNext G P \<longrightarrow> c < WIDTH G \<longrightarrow>
            possibleNonLosingMoves G P AND column_mask G (int c) =
              (if possible G P AND column_mask G (int c) \<noteq> 0 \<and>
                  \<not> canWinNext G (play G P (possible G P AND column_mask G (int c)))
               then possible G P AND column_mask G (int c) else 0)) \<and>
     (\<forall>P. valid P \<longrightarrow> \<not> canWinNext G P \<longrightarrow> possibleNonLosingMoves G P \<noteq> 0 \<longrightarrow>
            (\<exists>c < WIDTH G. possibleNonLosingMoves G P AND column_mask G (int c) \<noteq> 0)) \<and>
     (\<forall>P Q. valid P \<longrightarrow> valid Q \<longrightarrow> key G P = key G Q \<longrightarrow> score G P = score G Q) \<and>
     (\<forall>P. valid P \<longrightarrow> \<not> canWinNext G P \<longrightarrow> MIN_SCORE G \<le> score G P \<and> score G P \<le> MAX_SCORE G) \<and>
     MIN_SCORE G \<le> MAX_SCORE G \<and>
     2 * (MAX_SCORE G - MIN_SCORE G) + 2 < 256 \<and>
     MIN_SCORE G - 2 \<le> - ((cells G - 2) div 2) \<and>
     (cells G - 1) div 2 \<le> MAX_SCORE G + 2"

text \<open>
  Sound caches: a table entry for the key of a position bounds its score on the side
  its byte range says, a book entry decodes to its score and the book can be read, and
  the column order is the constructor's.
\<close>

definition table_sound :: "'p Position \<Rightarrow> ('p \<Rightarrow> bool) \<Rightarrow> TranspositionTable \<Rightarrow> bool" where
  "table_sound G valid t \<longleftrightarrow>
     (\<forall>P. valid P \<longrightarrow> \<not> canWinNext G P \<longrightarrow> uint (TranspositionTable_get t (key G P)) \<noteq> 0 \<longrightarrow>
        (if is_lower_bound G (uint (TranspositionTable_get t (key G P)))
         then decode_lower G (uint (TranspositionTable_get t (key G P))) \<le> score G P
         else score G P \<le> decode_upper G (uint (TranspositionTable_get t (key G P)))))"

definition book_sound :: "'p Position \<Rightarrow> ('p \<Rightarrow> bool) \<Rightarrow> OpeningBook \<Rightarrow> bool" where
  "book_sound G valid B \<longleftrightarrow>
     (\<forall>P. valid P \<longrightarrow> \<not> canWinNext G P \<longrightarrow>
        (\<exists>val. OpeningBook_get B G P = Inr val \<and> (val \<noteq> 0 \<longrightarrow> val + MIN_SCORE G - 1 = score G P)))"

definition solver_ok :: "'p Position \<Rightarrow> ('p \<Rightarrow> bool) \<Rightarrow> Solver \<Rightarrow> bool" where
  "solver_ok G valid S \<longleftrightarrow>
     columnOrder S = columnOrder (Solver_new G) \<and>
     book_sound G valid (book S) \<and>
     table_sound G valid (transTable S)"

text \<open>
  What a call needs to run at all, whatever the table holds: the constructor's column
  order and a book that can be read.
\<close>

definition solver_runs :: "'p Position \<Rightarrow> ('p \<Rightarrow> bool) \<Rightarrow> Solver \<Rightarrow> bool" where
  "solver_runs G valid S \<longleftrightarrow>
     columnOrder S = columnOrder (Solver_new G) \<and>
     (\<forall>P. valid P \<longrightarrow> \<not> canWinNext G P \<longrightarrow> (\<exists>val. OpeningBook_get (book S) G P = Inr val))"

text \<open>
  The contract of \<open>negamax\<close> from its header comment: a true score \<open>t\<close> at or below
  \<open>alpha\<close> gives a value between \<open>t\<close> and \<open>alpha\<close>, one at or above \<open>beta\<close> a value
  between \<open>beta\<close> and \<open>t\<close>, and one strictly inside the window gives \<open>t\<close> itself.
\<close>

definition bounds :: "int \<Rightarrow> int \<Rightarrow> int \<Rightarrow> int \<Rightarrow> bool" where
  "bounds alpha beta t v \<longleftrightarrow>
     (t \<le> alpha \<longrightarrow> t \<le> v \<and> v \<le> alpha) \<and>
     (beta \<le> t \<longrightarrow> beta \<le> v \<and> v \<le> t) \<and>
     (alpha < t \<and> t < beta \<longrightarrow> v = t)"

section \<open>A position class to run the solver on\<close>

text \<open>
  Modelled from the spec: a \<open>Position\<close> for the default board of 7 columns and 6 rows
  (\<open>Position.hpp\<close> is missing), as the bitboard such solvers use: one bit per cell,
  column after column, bottom row first, with one spare bit on top of each column;
  \<open>current_position\<close> holds the stones of the side to move and \<open>mask\<close> all stones. The
  score constants are those of the spec with \<open>k = 3\<close>. It gives the theorems below
  concrete inputs; none of them is proved from it alone.
\<close>

record Board =
  current_position :: uint64
  mask :: uint64
  moves :: nat

definition bottom_mask :: uint64 where
  "bottom_mask = 4432676798593"

definition board_mask :: uint64 where
  "board_mask = 279258638311359"

definition c4_column_mask :: "int \<Rightarrow> uint64" where
  "c4_column_mask col = push_bit (nat col * 7) 63"

text \<open>The free cells that would complete four in a row for the stones \<open>p\<close>.\<close>

definition compute_winning_position :: "uint64 \<Rightarrow> uint64 \<Rightarrow> uint64" where
  "compute_winning_position p m =
    (let r = push_bit 1 p AND push_bit 2 p AND push_bit 3 p;
         q = push_bit 7 p AND push_bit 14 p;
         r = r OR (q AND push_bit 21 p);
         r = r OR (q AND drop_bit 7 p);
         q = drop_bit 7 p AND drop_bit 14 p;
         r = r OR (q AND push_bit 7 p);
         r = r OR (q AND drop_bit 21 p);
         q = push_bit 6 p AND push_bit 12 p;
         r = r OR (q AND push_bit 18 p);
         r = r OR (q AND drop_bit 6 p);
         q = drop_bit 6 p AND drop_bit 12 p;
         r = r OR (q AND push_bit 6 p);
         r = r OR (q AND drop_bit 18 p);
         q = push_bit 8 p AND push_bit 16 p;
         r = r OR (q AND push_bit 24 p);
         r = r OR (q AND drop_bit 8 p);
         q = drop_bit 8 p AND drop_bit 16 p;
         r = r OR (q AND push_bit 8 p);
         r = r OR (q AND drop_bit 24 p)
     in r AND (board_mask XOR m))"

definition c4_possible :: "Board \<Rightarrow> uint64" where
  "c4_possible P = (mask P + bottom_mask) AND board_mask"

definition c4_canWinNext :: "Board \<Rightarrow> bool" where
  "c4_canWinNext P \<longleftrightarrow>
     compute_winning_position (current_position P) (mask P) AND c4_possible P \<noteq> 0"

definition c4_play :: "Board \<Rightarrow> uint64 \<Rightarrow> Board" where
  "c4_play P move =
     \<lparr>current_position = current_position P XOR mask P, mask = mask P OR move, moves = moves P + 1\<rparr>"

text \<open>
  The legal moves after which the opponent cannot win at once: none when the opponent
  has two winning cells to play, the block when there is one, and never the cell below a
  winning cell of the opponent.
\<close>

definition c4_possibleNonLosingMoves :: "Board \<Rightarrow> uint64" where
  "c4_possibleNonLosingMoves P =
    (let possible_mask = c4_possible P;
         opponent_win = compute_winning_position (current_position P XOR mask P) (mask P);
         forced_moves = possible_mask AND opponent_win
     in if forced_moves \<noteq> 0 then
          (if forced_moves AND (forced_moves - 1) \<noteq> 0 then 0
           else forced_moves AND NOT (drop_bit 1 opponent_win))
        else possible_mask AND NOT (drop_bit 1 opponent_win))"

fun popcount :: "nat \<Rightarrow> uint64 \<Rightarrow> int" where
  "popcount 0 m = 0"
| "popcount (Suc n) m = (if m = 0 then 0 else 1 + popcount n (m AND (m - 1)))"

definition c4_moveScore :: "Board \<Rightarrow> uint64 \<Rightarrow> int" where
  "c4_moveScore P move =
     popcount 64 (compute_winning_position (current_position P OR move) (mask P))"

definition c4_key :: "Board \<Rightarrow> uint64" where
  "c4_key P = current_position P + mask P"

definition connect4 :: "Board Position" where
  "connect4 =
     \<lparr>WIDTH = 7, HEIGHT = 6, MIN_SCORE = - 18, MAX_SCORE = 18,
      nbMoves = moves, canWinNext = c4_canWinNext, possible = c4_possible,
      possibleNonLosingMoves = c4_possibleNonLosingMoves, moveScore = c4_moveScore,
      play = c4_play, key = c4_key, key3 = c4_key, column_mask = c4_column_mask\<rparr>"

definition empty_board :: Board where
  "empty_board = \<lparr>current_position = 0, mask = 0, moves = 0\<rparr>"

definition play_col :: "Board \<Rightarrow> nat \<Rightarrow> Board" where
  "play_col P c = c4_play P ((mask P + push_bit (c * 7) 1) AND c4_column_mask (int c))"

definition play_cols :: "nat list \<Rightarrow> Board" where
  "play_cols cs = foldl play_col empty_board cs"

text \<open>A game played to a full board without four in a row, column by column.\<close>

definition drawn_game :: "nat list" where
  "drawn_game = [1, 4, 6, 6, 6, 0, 2, 0, 3, 6, 3, 3, 5, 3, 6, 1, 0, 3, 0, 4, 3, 5, 0, 6, 5, 2, 2, 5, 1, 2, 2, 0, 2, 5, 4, 5, 4, 4, 4, 1, 1, 1]"

text \<open>
  The column order in the words of the spec, to compare with the constructor:
  \<open>order[i] = W/2 + (1 - 2 (i mod 2)) \<lceil>(i+1)/2\<rceil>\<close>, the ceiling written with integer division.
\<close>

definition spec_column_order :: "nat \<Rightarrow> nat \<Rightarrow> int" where
  "spec_column_order w i = int w div 2 + (1 - 2 * (int i mod 2)) * (- ((- (int i + 1)) div 2))"

text \<open>
  An end of a game: 39 stones are on the board, nobody has four in a row, column 4 has
  one free cell and column 5 two. \<open>endgame\<close> lists the positions that play can reach
  from there while nobody has won.
\<close>

definition endgame_root :: Board where
  "endgame_root = \<lparr>current_position = 237667506244900, mask = 277600780935103, moves = 39\<rparr>"

definition endgame_4 :: Board where
  "endgame_4 = \<lparr>current_position = 39933274690203, mask = 277609370869695, moves = 40\<rparr>"

definition endgame_5 :: Board where
  "endgame_5 = \<lparr>current_position = 39933274690203, mask = 278150536748991, moves = 40\<rparr>"

definition endgame_45 :: Board where
  "endgame_45 = \<lparr>current_position = 237676096179492, mask = 278159126683583, moves = 41\<rparr>"

definition endgame_54 :: Board where
  "endgame_54 = \<lparr>current_position = 238217262058788, mask = 278159126683583, moves = 41\<rparr>"

definition endgame_55 :: Board where
  "endgame_55 = \<lparr>current_position = 238217262058788, mask = 279250048376767, moves = 41\<rparr>"

definition endgame_545 :: Board where
  "endgame_545 = \<lparr>current_position = 39941864624795, mask = 279258638311359, moves = 42\<rparr>"

definition endgame_554 :: Board where
  "endgame_554 = \<lparr>current_position = 41032786317979, mask = 279258638311359, moves = 42\<rparr>"

definition endgame :: "Board list" where
  "endgame = [endgame_root, endgame_4, endgame_5, endgame_45, endgame_54, endgame_55, endgame_545, endgame_554]"

definition endgame_valid :: "Board \<Rightarrow> bool" where
  "endgame_valid P \<longleftrightarrow> P \<in> set endgame"

text \<open>The fourth assumption of \<open>position_ok\<close> and the fifth, at one position of this board.\<close>

definition non_losing_ok :: "Board \<Rightarrow> bool" where
  "non_losing_ok P \<longleftrightarrow>
     (\<forall>c < 7. possibleNonLosingMoves connect4 P AND column_mask connect4 (int c) =
          (if possible connect4 P AND column_mask connect4 (int c) \<noteq> 0 \<and>
              \<not> canWinNext connect4 (play connect4 P (possible connect4 P AND column_mask connect4 (int c)))
           then possible connect4 P AND column_mask connect4 (int c) else 0)) \<and>
     (possibleNonLosingMoves connect4 P \<noteq> 0 \<longrightarrow>
        (\<exists>c < 7. possibleNonLosingMoves connect4 P AND column_mask connect4 (int c) \<noteq> 0))"


definition forced_34 :: Board where
  "forced_34 = \<lparr>current_position = 110192218036538, mask = 278142903115711, moves = 34\<rparr>"

definition forced_35 :: Board where
  "forced_35 = \<lparr>current_position = 167950685079173, mask = 278142919892927, moves = 35\<rparr>"

definition forced_36 :: Board where
  "forced_36 = \<lparr>current_position = 110192234813754, mask = 278143993634751, moves = 36\<rparr>"

definition forced_37 :: Board where
  "forced_37 = \<lparr>current_position = 167951758820997, mask = 278146141118399, moves = 37\<rparr>"

definition forced_38 :: Board where
  "forced_38 = \<lparr>current_position = 110194382297402, mask = 278150436085695, moves = 38\<rparr>"




lemmas c4_defs =
  connect4_def c4_canWinNext_def c4_possible_def c4_possibleNonLosingMoves_def c4_play_def
  c4_key_def c4_column_mask_def compute_winning_position_def bottom_mask_def board_mask_def
  empty_board_def play_col_def play_cols_def

section \<open>The score encoding of the transposition table\<close>

lemma uint8_of_int: "0 \<le> x \<Longrightarrow> x < 256 \<Longrightarrow> uint (of_int x :: uint8) = x"
  by (simp add: uint_word_of_int_eq take_bit_int_eq_self)

lemma table_get_put:
  "TranspositionTable_get (TranspositionTable_put t k v) k' =
     (if k' = k then of_int v else TranspositionTable_get t k')"
  by (simp add: TranspositionTable_get_def TranspositionTable_put_def)

text \<open>
  C2. For every score \<open>s\<close> (and \<open>s'\<close>) between \<open>MIN_SCORE\<close> and \<open>MAX_SCORE\<close>, where the two
  byte ranges fit a byte: the byte stored for \<open>s\<close> as a lower bound is read back above
  \<open>MAX_SCORE - MIN_SCORE + 1\<close> and decodes to \<open>s\<close>; the byte stored for \<open>s\<close> as an upper
  bound is read back between 1 and \<open>MAX_SCORE - MIN_SCORE + 1\<close> and decodes to \<open>s\<close>; no
  lower-bound byte is an upper-bound byte, and none of them is the absent byte 0.
\<close>

theorem bound_bytes_round_trip:
  assumes "MIN_SCORE G \<le> s" and "s \<le> MAX_SCORE G"
    and "MIN_SCORE G \<le> s'" and "s' \<le> MAX_SCORE G"
    and "2 * (MAX_SCORE G - MIN_SCORE G) + 2 < 256"
  shows "(let lo = uint (TranspositionTable_get (TranspositionTable_put t k (lower_bound_byte G s)) k);
              up = uint (TranspositionTable_get (TranspositionTable_put t k (upper_bound_byte G s)) k);
              up' = uint (TranspositionTable_get (TranspositionTable_put t k (upper_bound_byte G s')) k)
          in is_lower_bound G lo \<and> decode_lower G lo = s
           \<and> 1 \<le> up \<and> up \<le> MAX_SCORE G - MIN_SCORE G + 1 \<and> decode_upper G up = s
           \<and> lo \<noteq> up' \<and> lo \<noteq> 0 \<and> up \<noteq> 0)"
proof -
  have lo: "uint (of_int (lower_bound_byte G s) :: uint8) = lower_bound_byte G s"
    using assms by (intro uint8_of_int) (simp_all add: lower_bound_byte_def)
  have up: "uint (of_int (upper_bound_byte G s) :: uint8) = upper_bound_byte G s"
    using assms by (intro uint8_of_int) (simp_all add: upper_bound_byte_def)
  have up': "uint (of_int (upper_bound_byte G s') :: uint8) = upper_bound_byte G s'"
    using assms by (intro uint8_of_int) (simp_all add: upper_bound_byte_def)
  show ?thesis
    using assms
    by (simp add: table_get_put lo up up' Let_def;
        simp add: lower_bound_byte_def upper_bound_byte_def
          is_lower_bound_def decode_lower_def decode_upper_def)
qed

theorem bound_bytes_round_trip_witness:
  "(let lo = uint (TranspositionTable_get
                     (TranspositionTable_put (\<lambda>k. 0) 5 (lower_bound_byte connect4 (- 3))) 5);
        up = uint (TranspositionTable_get
                     (TranspositionTable_put (\<lambda>k. 0) 5 (upper_bound_byte connect4 (- 3))) 5);
        up' = uint (TranspositionTable_get
                     (TranspositionTable_put (\<lambda>k. 0) 5 (upper_bound_byte connect4 18)) 5)
    in lo = 53 \<and> up = 16 \<and> up' = 37
     \<and> is_lower_bound connect4 lo \<and> decode_lower connect4 lo = - 3
     \<and> 1 \<le> up \<and> up \<le> MAX_SCORE connect4 - MIN_SCORE connect4 + 1
     \<and> decode_upper connect4 up = - 3 \<and> lo \<noteq> up' \<and> lo \<noteq> 0 \<and> up \<noteq> 0)"
  using bound_bytes_round_trip [of connect4 "- 3" 18 "\<lambda>k. 0" 5]
  by (simp add: connect4_def Let_def table_get_put lower_bound_byte_def upper_bound_byte_def)

section \<open>The early returns of solve and getBestMove\<close>

lemma full_board: "play_cols drawn_game = \<lparr>current_position = 92542660856476, mask = 279258638311359, moves = 42\<rparr>"
  by (simp add: drawn_game_def c4_defs)

lemma three_in_column: "play_cols [3,0,3,0,3,0] = \<lparr>current_position = 14680064, mask = 14680071, moves = 6\<rparr>"
  by (simp add: c4_defs)

text \<open>
  C6. When the side to move can complete a win on this turn, \<open>solve\<close> returns the
  fastest-win score \<open>(WIDTH * HEIGHT + 1 - nbMoves) / 2\<close> for every depth budget and both
  weak settings, and the solver's state is the one it was given: \<open>negamax\<close>, which writes the
  table, was not run.
\<close>

theorem solve_immediate_win:
  "canWinNext G P \<Longrightarrow>
     solve G P d weak S = Inr (tdiv (int (WIDTH G) * int (HEIGHT G) + 1 - int (nbMoves G P)) 2, S)"
  by (simp add: solve_def cells_def)

theorem solve_immediate_win_witness:
  "canWinNext connect4 (play_cols [3,0,3,0,3,0]) \<and>
   solve connect4 (play_cols [3,0,3,0,3,0]) (- 1) False (Solver_new connect4) = Inr (18, Solver_new connect4)"
proof -
  have w: "canWinNext connect4 (play_cols [3,0,3,0,3,0])"
    by (simp add: three_in_column) (simp add: c4_defs)
  show ?thesis
    using w solve_immediate_win [OF w, of "- 1" False "Solver_new connect4"]
    by (simp add: three_in_column) (simp add: connect4_def tdiv_def)
qed

text \<open>
  C9. On a position with no legal move (an empty \<open>possible\<close> mask) \<open>getBestMove\<close> returns
  the column \<open>-1\<close>, not a fault, for every depth budget and both weak settings.
\<close>

theorem getBestMove_no_move:
  "possible G P = 0 \<Longrightarrow> getBestMove G P d weak S = Inr (- 1, S)"
  by (simp add: getBestMove_def)

theorem getBestMove_no_move_witness:
  "possible connect4 (play_cols drawn_game) = 0 \<and>
   getBestMove connect4 (play_cols drawn_game) (- 1) True (Solver_new connect4) = Inr (- 1, Solver_new connect4)"
proof -
  have w: "possible connect4 (play_cols drawn_game) = 0"
    by (simp add: full_board) (simp add: c4_defs)
  show ?thesis
    using w getBestMove_no_move [OF w, of "- 1" True "Solver_new connect4"] by simp
qed

section \<open>The column order\<close>

lemma all_less_7:
  "(\<forall>c < 7. Q c) \<longleftrightarrow> Q 0 \<and> Q 1 \<and> Q 2 \<and> Q 3 \<and> Q 4 \<and> Q 5 \<and> Q (6 :: nat)"
proof -
  have "c < 7 \<longleftrightarrow> c = 0 \<or> c = 1 \<or> c = 2 \<or> c = 3 \<or> c = 4 \<or> c = 5 \<or> c = 6" for c :: nat
    by arith
  then show ?thesis by auto
qed

lemma ex_less_7:
  "(\<exists>c < 7. Q c) \<longleftrightarrow> Q 0 \<or> Q 1 \<or> Q 2 \<or> Q 3 \<or> Q 4 \<or> Q 5 \<or> Q (6 :: nat)"
proof -
  have "c < 7 \<longleftrightarrow> c = 0 \<or> c = 1 \<or> c = 2 \<or> c = 3 \<or> c = 4 \<or> c = 5 \<or> c = 6" for c :: nat
    by arith
  then show ?thesis by auto
qed

lemma columnOrder_at_eq:
  "columnOrder_at w (int i) = int (w div 2) + (if even i then int (i div 2) else - int ((i + 1) div 2))"
proof (cases "even i")
  case True
  then have "tmod (int i) 2 = 0" by (simp add: tmod2_nonneg)
  then show ?thesis using True
    by (simp add: columnOrder_at_def tdiv2_nonneg zdiv_int) 
next
  case False
  then have m: "tmod (int i) 2 = 1" by (simp add: tmod2_nonneg) presburger
  have "tdiv (- (int i + 1)) 2 = - ((int i + 1) div 2)"
    by (simp add: tdiv2_neg)
  then show ?thesis using False
    by (simp add: columnOrder_at_def m tdiv2_nonneg zdiv_int)
qed

lemma columnOrder_nth:
  "i < WIDTH G \<Longrightarrow> columnOrder (Solver_new G) ! i = columnOrder_at (WIDTH G) (int i)"
  by (simp add: Solver_new_def)

lemma columnOrder_length: "length (columnOrder (Solver_new G)) = WIDTH G"
  by (simp add: Solver_new_def)

lemma columnOrder_at_inj: "inj_on (\<lambda>i. columnOrder_at w (int i)) {0..<w}"
  unfolding inj_on_def columnOrder_at_eq
  by (auto split: if_splits; presburger)

lemma columnOrder_at_range:
  assumes "i < w" shows "0 \<le> columnOrder_at w (int i) \<and> columnOrder_at w (int i) < int w"
  using assms unfolding columnOrder_at_eq by (auto; presburger)

lemma columnOrder_distinct: "distinct (columnOrder (Solver_new G))"
  using columnOrder_at_inj [of "WIDTH G"]
  by (simp add: Solver_new_def distinct_map)

lemma columnOrder_set: "set (columnOrder (Solver_new G)) = int ` {0..<WIDTH G}"
proof -
  let ?f = "\<lambda>i. nat (columnOrder_at (WIDTH G) (int i))"
  have inj: "inj_on ?f {0..<WIDTH G}"
    using columnOrder_at_inj [of "WIDTH G"] columnOrder_at_range [of _ "WIDTH G"]
    unfolding inj_on_def by (metis atLeastLessThan_iff nat_eq_iff2)
  have sub: "?f ` {0..<WIDTH G} \<subseteq> {0..<WIDTH G}"
    using columnOrder_at_range [of _ "WIDTH G"] by (fastforce simp: nat_less_iff)
  have "card (?f ` {0..<WIDTH G}) = card {0..<WIDTH G}"
    using inj by (rule card_image)
  with sub have eq: "?f ` {0..<WIDTH G} = {0..<WIDTH G}"
    by (simp add: card_subset_eq)
  have "set (columnOrder (Solver_new G)) = (\<lambda>i. columnOrder_at (WIDTH G) (int i)) ` {0..<WIDTH G}"
    by (simp add: Solver_new_def)
  also have "\<dots> = int ` (?f ` {0..<WIDTH G})"
    using columnOrder_at_range [of _ "WIDTH G"] by (force simp: image_iff)
  finally show ?thesis by (simp only: eq)
qed

text \<open>
  C5. For width 7 the constructor computes \<open>[3, 2, 4, 1, 5, 0, 6]\<close>: the product
  \<open>(1 - 2 * (i % 2)) * (i + 1)\<close> is negative at the odd indices, so the left column of each
  pair comes before the right one. That is not the list \<open>[3, 4, 2, 5, 1, 6, 0]\<close> which the
  claim gives and which the comment beside the loop gives as its example, and not what
  the claim's formula with the ceiling gives.
\<close>

theorem column_order_width_7:
  "columnOrder (Solver_new connect4) = [3, 2, 4, 1, 5, 0, 6] \<and>
   columnOrder (Solver_new connect4) \<noteq> [3, 4, 2, 5, 1, 6, 0] \<and>
   columnOrder (Solver_new connect4) \<noteq> map (spec_column_order (WIDTH connect4)) [0..<WIDTH connect4]"
  by (simp add: Solver_new_def connect4_def columnOrder_at_def tdiv_def tmod_def upt_rec
      spec_column_order_def)

text \<open>
  For every width the constructor's order is a permutation of the columns that starts at
  the centre column and puts, at the indices \<open>2j - 1\<close> and \<open>2j\<close>, the column \<open>j\<close> places to
  the left of the centre and then the one \<open>j\<close> places to the right.
\<close>

lemma column_order_left_first:
  "length (columnOrder (Solver_new G)) = WIDTH G \<and>
   distinct (columnOrder (Solver_new G)) \<and>
   set (columnOrder (Solver_new G)) = int ` {0..<WIDTH G} \<and>
   (\<forall>i < WIDTH G. columnOrder (Solver_new G) ! i =
      int (WIDTH G div 2) + (if even i then int (i div 2) else - int ((i + 1) div 2)))"
  by (simp add: columnOrder_length columnOrder_distinct columnOrder_set columnOrder_nth
      columnOrder_at_eq)

section \<open>Loading a book of the wrong width\<close>

lemma sint8_nonneg: "0 \<le> sint (b :: uint8) \<Longrightarrow> sint b = uint b"
proof -
  assume nn: "0 \<le> sint b"
  have lt: "sint b < 128" using sint_lt [of b] by simp
  have "b = word_of_int (sint b)" by simp
  then have "uint b = uint (word_of_int (sint b) :: uint8)" by simp
  also have "\<dots> = sint b"
    using nn lt by (intro uint8_of_int) simp_all
  finally show ?thesis by simp
qed

text \<open>
  A book whose table pointer is null or live is asked to load a file that opens and
  whose first byte is not the board width (the width is not negative). That load returns
  without a fault, reports the width it found and the width it expected and nothing
  else, and leaves the depth at \<open>-1\<close>, so that afterwards \<open>get\<close> answers 0 for every
  position.
\<close>

lemma load_width_mismatch:
  assumes "T B \<noteq> Dangling" and "0 \<le> width B" and "uint b \<noteq> width B"
  shows "\<exists>B'. OpeningBook_load pl B (Some (b # rest)) show
                 = Inr (B', [InvalidWidth (Some (char_int pl b)) (width B)])
              \<and> depth B' = - 1
              \<and> (\<forall>(G :: 'p Position) P. OpeningBook_get B' G P = Inr 0)"
proof -
  have ne: "char_int pl b \<noteq> width B"
  proof (cases "char_signed pl")
    case False
    with assms show ?thesis by (simp add: char_int_def)
  next
    case True
    with assms sint8_nonneg [of b] show ?thesis by (auto simp: char_int_def)
  qed
  define B1 where "B1 = (case T B of Live t \<Rightarrow> B\<lparr>depth := - 1, T := Dangling\<rparr> | _ \<Rightarrow> B\<lparr>depth := - 1\<rparr>)"
  have d: "delete_T (B\<lparr>depth := - 1\<rparr>) = Inr B1"
    using assms(1) by (cases "T B") (simp_all add: delete_T_def B1_def)
  have B1: "depth B1 = - 1" "width B1 = width B"
    by (cases "T B"; simp add: B1_def)+
  have l: "OpeningBook_load pl B (Some (b # rest)) show = Inr (B1, [InvalidWidth (Some (char_int pl b)) (width B)])"
    unfolding OpeningBook_load_def d using ne by (simp add: read_char_def B1)
  have g: "OpeningBook_get B1 G P = Inr 0" for G :: "'p Position" and P
    by (simp add: OpeningBook_get_def B1)
  show ?thesis
    by (rule exI [of _ B1]) (simp add: l g B1)
qed

text \<open>
  The pointer is not reset after \<open>delete T\<close>: a load on a book that an earlier failed
  load left with a deleted table deletes it again, whatever the file is.
\<close>

lemma load_deletes_twice: "T B = Dangling \<Longrightarrow> OpeningBook_load pl B file show = Inl DoubleFree"
  by (simp add: OpeningBook_load_def delete_T_def)

text \<open>
  C8. A book that holds a table, as the four-argument constructor builds it, is asked to
  load a file whose first byte is 6 on the board of width 7. The load reports the width
  and returns with the depth at \<open>-1\<close>, and \<open>get\<close> answers 0; but \<open>T\<close> still points at the
  table that \<open>delete T\<close> freed. The same load once more deletes it a second time, and so
  does the destructor: the failed load does not leave the book in a state that is safe
  to use again or to destroy.
\<close>

theorem load_width_mismatch_double_delete:
  "OpeningBook_load host (OpeningBook_of 7 6 5 (Live (\<lambda>k. 1))) (Some [6, 6, 5, 1, 1, 14]) False
     = Inr (\<lparr>T = Dangling, width = 7, height = 6, depth = - 1\<rparr>, [InvalidWidth (Some 6) 7]) \<and>
   OpeningBook_get \<lparr>T = Dangling, width = 7, height = 6, depth = - 1\<rparr> connect4 empty_board = Inr 0 \<and>
   OpeningBook_load host \<lparr>T = Dangling, width = 7, height = 6, depth = - 1\<rparr>
       (Some [6, 6, 5, 1, 1, 14]) False = Inl DoubleFree \<and>
   OpeningBook_destroy \<lparr>T = Dangling, width = 7, height = 6, depth = - 1\<rparr> = Inl DoubleFree"
  by (simp add: OpeningBook_load_def OpeningBook_of_def OpeningBook_destroy_def delete_T_def
      read_char_def char_int_def host_def OpeningBook_get_def)

section \<open>What negamax writes into the table\<close>

lemma explore_store:
  "explore rec G P ms alpha beta S = Inr (v, S') \<Longrightarrow> alpha < beta \<Longrightarrow>
     (\<exists>t. (v < beta \<and> transTable S' = TranspositionTable_put t (key G P) (upper_bound_byte G v)) \<or>
          (v \<ge> beta \<and> transTable S' = TranspositionTable_put t (key G P) (lower_bound_byte G v)))"
proof (induction ms arbitrary: alpha S)
  case Nil
  then show ?case by auto
next
  case (Cons e ms)
  show ?case
  proof (cases "fst e = 0")
    case True
    with Cons.prems show ?thesis by auto
  next
    case False
    with Cons.prems obtain w S1 where r: "rec (play G P (fst e)) (- beta) (- alpha) S = Inr (w, S1)"
      by (auto simp: Let_def split: sum.splits)
    show ?thesis
    proof (cases "- w \<ge> beta")
      case True
      with Cons.prems False r show ?thesis by (auto simp: Let_def)
    next
      case nb: False
      with Cons.prems False r
      have "explore rec G P ms (if - w > alpha then - w else alpha) beta S1 = Inr (v, S')"
        by (simp add: Let_def)
      moreover have "(if - w > alpha then - w else alpha) < beta" using nb Cons.prems by auto
      ultimately show ?thesis by (rule Cons.IH)
    qed
  qed
qed

lemma open_three_ahead: "play_cols [3, 3, 2, 2] = \<lparr>current_position = 2113536, mask = 6340608, moves = 4\<rparr>"
  by (simp add: c4_defs)

lemma double_threat: "play_cols [3, 3, 2, 2, 4] = \<lparr>current_position = 4227072, mask = 274776064, moves = 5\<rparr>"
  by (simp add: c4_defs)

lemma double_threat_no_defence: "possibleNonLosingMoves connect4 (play_cols [3, 3, 2, 2, 4]) = 0"
  by (simp add: double_threat) (simp add: c4_defs)

lemma double_threat_no_win: "\<not> canWinNext connect4 (play_cols [3, 3, 2, 2, 4])"
  by (simp add: double_threat) (simp add: c4_defs)


subsection \<open>The forced line\<close>

lemma cells_connect4: "cells connect4 = 42"
  by (simp add: cells_def connect4_def)

lemma rev_upt_7: "rev [0..<7] = [6, 5, 4, 3, 2, 1, 0 :: nat]"
  by (simp add: upt_rec)

lemma sort_moves_connect4:
  assumes "columnOrder S = [3, 2, 4, 1, 5, 0, 6]"
  shows "sort_moves connect4 S P poss =
     foldl (\<lambda>ms c. if poss AND c4_column_mask c \<noteq> 0
                     then MoveSorter_add ms (poss AND c4_column_mask c)
                            (moveScore connect4 P (poss AND c4_column_mask c))
                     else ms) [] [6, 0, 5, 1, 4, 2, 3]"
proof -
  have w: "WIDTH connect4 = 7" by (simp add: connect4_def)
  have c: "column_mask connect4 = c4_column_mask" by (simp add: connect4_def)
  show ?thesis
    unfolding sort_moves_def w rev_upt_7 c assms Let_def
    by simp
qed

lemma forced_34_sort:
  "columnOrder S = [3, 2, 4, 1, 5, 0, 6] \<Longrightarrow>
     sort_moves connect4 S forced_34 16777216 = [(16777216, moveScore connect4 forced_34 16777216)]"
  by (simp add: sort_moves_connect4 c4_column_mask_def MoveSorter_add_def)



lemma forced_34_nb: "nbMoves connect4 forced_34 = 34"
  by (simp add: forced_34_def connect4_def)

lemma forced_34_key: "key connect4 forced_34 = 388335121152249"
  by (simp add: forced_34_def connect4_def c4_key_def)

lemma forced_34_moves: "possibleNonLosingMoves connect4 forced_34 = 16777216"
  by (simp add: forced_34_def c4_defs Let_def)

lemma forced_34_play: "play connect4 forced_34 16777216 = forced_35"
  by (simp add: forced_34_def forced_35_def connect4_def c4_play_def)

lemma forced_35_win: "\<not> canWinNext connect4 forced_35"
  by (simp add: forced_35_def connect4_def c4_canWinNext_def c4_possible_def compute_winning_position_def bottom_mask_def board_mask_def Let_def)

lemma forced_35_nb: "nbMoves connect4 forced_35 = 35"
  by (simp add: forced_35_def connect4_def)

lemma forced_35_key: "key connect4 forced_35 = 446093604972100"
  by (simp add: forced_35_def connect4_def c4_key_def)

lemma forced_35_moves: "possibleNonLosingMoves connect4 forced_35 = 1073741824"
  by (simp add: forced_35_def c4_defs Let_def)

lemma forced_35_play: "play connect4 forced_35 1073741824 = forced_36"
  by (simp add: forced_35_def forced_36_def connect4_def c4_play_def)

lemma forced_36_win: "\<not> canWinNext connect4 forced_36"
  by (simp add: forced_36_def connect4_def c4_canWinNext_def c4_possible_def compute_winning_position_def bottom_mask_def board_mask_def Let_def)

lemma forced_36_nb: "nbMoves connect4 forced_36 = 36"
  by (simp add: forced_36_def connect4_def)

lemma forced_36_key: "key connect4 forced_36 = 388336228448505"
  by (simp add: forced_36_def connect4_def c4_key_def)

lemma forced_36_moves: "possibleNonLosingMoves connect4 forced_36 = 2147483648"
  by (simp add: forced_36_def c4_defs Let_def)

lemma forced_36_play: "play connect4 forced_36 2147483648 = forced_37"
  by (simp add: forced_36_def forced_37_def connect4_def c4_play_def)

lemma forced_37_win: "\<not> canWinNext connect4 forced_37"
  by (simp add: forced_37_def connect4_def c4_canWinNext_def c4_possible_def compute_winning_position_def bottom_mask_def board_mask_def Let_def)

lemma forced_37_nb: "nbMoves connect4 forced_37 = 37"
  by (simp add: forced_37_def connect4_def)

lemma forced_37_key: "key connect4 forced_37 = 446097899939396"
  by (simp add: forced_37_def connect4_def c4_key_def)

lemma forced_37_moves: "possibleNonLosingMoves connect4 forced_37 = 4294967296"
  by (simp add: forced_37_def c4_defs Let_def)

lemma forced_37_play: "play connect4 forced_37 4294967296 = forced_38"
  by (simp add: forced_37_def forced_38_def connect4_def c4_play_def)

lemma forced_38_win: "\<not> canWinNext connect4 forced_38"
  by (simp add: forced_38_def connect4_def c4_canWinNext_def c4_possible_def compute_winning_position_def bottom_mask_def board_mask_def Let_def)

lemma forced_38_nb: "nbMoves connect4 forced_38 = 38"
  by (simp add: forced_38_def connect4_def)

lemma forced_38_key: "key connect4 forced_38 = 388344818383097"
  by (simp add: forced_38_def connect4_def c4_key_def)

lemma forced_38_moves: "possibleNonLosingMoves connect4 forced_38 = 0"
  by (simp add: forced_38_def c4_defs Let_def)

lemma forced_35_sort:
  "columnOrder S = [3, 2, 4, 1, 5, 0, 6] \<Longrightarrow>
     sort_moves connect4 S forced_35 1073741824 = [(1073741824, moveScore connect4 forced_35 1073741824)]"
  by (simp add: sort_moves_connect4 c4_column_mask_def MoveSorter_add_def)

lemma forced_36_sort:
  "columnOrder S = [3, 2, 4, 1, 5, 0, 6] \<Longrightarrow>
     sort_moves connect4 S forced_36 2147483648 = [(2147483648, moveScore connect4 forced_36 2147483648)]"
  by (simp add: sort_moves_connect4 c4_column_mask_def MoveSorter_add_def)

lemma forced_37_sort:
  "columnOrder S = [3, 2, 4, 1, 5, 0, 6] \<Longrightarrow>
     sort_moves connect4 S forced_37 4294967296 = [(4294967296, moveScore connect4 forced_37 4294967296)]"
  by (simp add: sort_moves_connect4 c4_column_mask_def MoveSorter_add_def)


lemma connect4_consts:
  "MIN_SCORE connect4 = - 18" "MAX_SCORE connect4 = 18" "WIDTH connect4 = 7" "HEIGHT connect4 = 6"
  by (simp_all add: connect4_def)

lemma Solver_new_connect4:
  "Solver_new connect4 =
     \<lparr>transTable = (\<lambda>k. 0), book = OpeningBook_empty 7 6, columnOrder = [3, 2, 4, 1, 5, 0, 6]\<rparr>"
  by (simp add: Solver_new_def connect4_consts columnOrder_at_def tdiv_def tmod_def upt_rec)

lemma empty_book_get: "OpeningBook_get (OpeningBook_empty w h) G P = Inr 0"
  by (simp add: OpeningBook_get_def OpeningBook_empty_def)


lemmas forced_facts =
  forced_34_nb forced_35_nb forced_36_nb forced_37_nb forced_38_nb
  forced_34_key forced_35_key forced_36_key forced_37_key forced_38_key
  forced_34_moves forced_35_moves forced_36_moves forced_37_moves forced_38_moves
  forced_34_play forced_35_play forced_36_play forced_37_play
  forced_34_sort forced_35_sort forced_36_sort forced_37_sort
  cells_connect4 connect4_consts empty_book_get

lemmas window_defs =
  raise_alpha_def lower_beta_def table_window_def is_lower_bound_def decode_lower_def
  decode_upper_def lower_bound_byte_def upper_bound_byte_def
  TranspositionTable_get_def TranspositionTable_put_def


subsection \<open>The values negamax returns\<close>

lemma explore_ge:
  "explore rec G P ms alpha beta S = Inr (v, S') \<Longrightarrow> alpha < beta \<Longrightarrow> alpha \<le> v"
proof (induction ms arbitrary: alpha S)
  case Nil
  then show ?case by auto
next
  case (Cons e ms)
  show ?case
  proof (cases "fst e = 0")
    case True
    with Cons.prems show ?thesis by auto
  next
    case False
    with Cons.prems obtain w S1 where r: "rec (play G P (fst e)) (- beta) (- alpha) S = Inr (w, S1)"
      by (auto simp: Let_def split: sum.splits)
    show ?thesis
    proof (cases "- w \<ge> beta")
      case True
      with Cons.prems False r show ?thesis by (auto simp: Let_def)
    next
      case nb: False
      with Cons.prems False r
      have e: "explore rec G P ms (if - w > alpha then - w else alpha) beta S1 = Inr (v, S')"
        by (simp add: Let_def)
      have "(if - w > alpha then - w else alpha) < beta" using nb Cons.prems by auto
      from Cons.IH [OF e this] show ?thesis by (auto split: if_splits)
    qed
  qed
qed

text \<open>
  A value that reached \<open>beta\<close> is the negated value of a recursive call, and that call
  was made with a window \<open>a < b\<close>.
\<close>

lemma explore_high:
  "explore rec G P ms alpha beta S = Inr (v, S') \<Longrightarrow> alpha < beta \<Longrightarrow> beta \<le> v \<Longrightarrow>
     \<exists>P2 a b S2 S3. a < b \<and> rec P2 a b S2 = Inr (- v, S3)"
proof (induction ms arbitrary: alpha S)
  case Nil
  then show ?case by auto
next
  case (Cons e ms)
  show ?case
  proof (cases "fst e = 0")
    case True
    with Cons.prems show ?thesis by auto
  next
    case False
    with Cons.prems obtain w S1 where r: "rec (play G P (fst e)) (- beta) (- alpha) S = Inr (w, S1)"
      by (auto simp: Let_def split: sum.splits)
    show ?thesis
    proof (cases "- w \<ge> beta")
      case True
      with Cons.prems False r have "v = - w" by (auto simp: Let_def)
      with r Cons.prems(2) show ?thesis
        by (intro exI [of _ "play G P (fst e)"] exI [of _ "- beta"] exI [of _ "- alpha"]
            exI [of _ S] exI [of _ S1]) simp
    next
      case nb: False
      with Cons.prems False r
      have e: "explore rec G P ms (if - w > alpha then - w else alpha) beta S1 = Inr (v, S')"
        by (simp add: Let_def)
      have "(if - w > alpha then - w else alpha) < beta" using nb Cons.prems by auto
      from Cons.IH [OF e this Cons.prems(3)] show ?thesis .
    qed
  qed
qed

lemma cells_nonneg: "0 \<le> cells G"
  by (simp add: cells_def)

lemma tdiv_neg_ge: "x \<le> c \<Longrightarrow> 0 \<le> c \<Longrightarrow> - (c div 2) \<le> tdiv (- x) 2"
  by (cases "0 \<le> x") (simp_all add: tdiv2_neg tdiv2_nonneg; linarith)+

lemma tdiv_le: "x \<le> c \<Longrightarrow> 0 \<le> c \<Longrightarrow> tdiv x 2 \<le> c div 2"
  by (cases "0 \<le> x") (simp_all add: tdiv2_neg tdiv2_nonneg; linarith)+

lemma tdiv_nonneg: "0 \<le> x \<Longrightarrow> 0 \<le> tdiv x 2"
  by (simp add: tdiv2_nonneg)

lemma book_get_nonneg: "OpeningBook_get B G P = Inr val \<Longrightarrow> 0 \<le> val"
  by (auto simp: OpeningBook_get_def split: if_splits ptr.splits)

lemma raise_alpha_cases:
  "alpha < beta \<Longrightarrow>
     (case raise_alpha alpha beta mn of
        Return v \<Rightarrow> v = mn
      | Window a b \<Rightarrow> a < b \<and> mn \<le> a \<and> alpha \<le> a \<and> b = beta)"
  by (simp add: raise_alpha_def)

lemma lower_beta_cases:
  "alpha < beta \<Longrightarrow>
     (case lower_beta alpha beta mx of
        Return v \<Rightarrow> v = mx
      | Window a b \<Rightarrow> a < b \<and> a = alpha \<and> b \<le> mx \<and> b \<le> beta)"
  by (simp add: lower_beta_def)

lemma table_window_cases:
  assumes "alpha < beta" and "0 \<le> val"
  shows "case table_window G val alpha beta of
           Return v \<Rightarrow> MIN_SCORE G \<le> v
         | Window a b \<Rightarrow> a < b \<and> alpha \<le> a \<and> b \<le> beta"
proof (cases "val = 0")
  case True
  with assms show ?thesis by (simp add: table_window_def)
next
  case False
  with assms(2) have p: "1 \<le> val" by simp
  show ?thesis
  proof (cases "is_lower_bound G val")
    case True
    then have "MIN_SCORE G \<le> decode_lower G val"
      by (simp add: is_lower_bound_def decode_lower_def)
    with raise_alpha_cases [OF assms(1), of "decode_lower G val"] True False show ?thesis
      by (auto simp: table_window_def split: window.splits)
  next
    case nl: False
    have "MIN_SCORE G \<le> decode_upper G val"
      using p by (simp add: decode_upper_def)
    with lower_beta_cases [OF assms(1), of "decode_upper G val"] nl False show ?thesis
      by (auto simp: table_window_def split: window.splits)
  qed
qed

lemma negamax_head_cases:
  assumes h: "negamax_head G P alpha beta d S = Inr w" and ab: "alpha < beta"
  shows "case w of
           Return v \<Rightarrow> min (MIN_SCORE G) (- (cells G div 2)) \<le> v
         | Window a b \<Rightarrow> a < b \<and> - (cells G div 2) \<le> a \<and> b \<le> cells G div 2"
proof -
  define mn where "mn = tdiv (- (cells G - 2 - int (nbMoves G P))) 2"
  define mx where "mx = tdiv (cells G - 1 - int (nbMoves G P)) 2"
  define val where "val = uint (TranspositionTable_get (transTable S) (key G P))"
  have z: "- (cells G div 2) \<le> 0" using cells_nonneg [of G] by simp
  have lost: "- (cells G div 2) \<le> tdiv (- (cells G - int (nbMoves G P))) 2"
    by (rule tdiv_neg_ge; simp add: cells_nonneg)
  have mn: "- (cells G div 2) \<le> mn"
    unfolding mn_def by (rule tdiv_neg_ge; simp add: cells_nonneg)
  have mx: "mx \<le> cells G div 2"
    unfolding mx_def by (rule tdiv_le; simp add: cells_nonneg)
  have val: "0 \<le> val" by (simp add: val_def)
  show ?thesis
  proof (cases "possibleNonLosingMoves G P = 0")
    case True
    with h have "w = Return (tdiv (- (cells G - int (nbMoves G P))) 2)"
      by (simp add: negamax_head_def)
    with lost show ?thesis by simp
  next
    case poss: False
    show ?thesis
    proof (cases "int (nbMoves G P) \<ge> cells G - 2")
      case True
      with h poss have "w = Return 0" by (simp add: negamax_head_def)
      with z show ?thesis by simp
    next
      case room: False
      then have mx0: "0 \<le> mx" unfolding mx_def by (intro tdiv_nonneg) simp
      show ?thesis
      proof (cases "raise_alpha alpha beta mn")
        case (Return v)
        with h poss room have "w = Return v"
          by (simp add: negamax_head_def mn_def)
        moreover from raise_alpha_cases [OF ab, of mn] Return have "v = mn" by simp
        ultimately show ?thesis using mn by simp
      next
        case w1: (Window a1 b1)
        with raise_alpha_cases [OF ab, of mn] have 1: "a1 < b1" "mn \<le> a1" by simp_all
        show ?thesis
        proof (cases "lower_beta a1 b1 mx")
          case (Return v)
          with h poss room w1 have "w = Return v"
            by (simp add: negamax_head_def mn_def mx_def)
          moreover from lower_beta_cases [OF 1(1), of mx] Return have "v = mx" by simp
          ultimately show ?thesis using mx0 z by simp
        next
          case w2: (Window a2 b2)
          with lower_beta_cases [OF 1(1), of mx] have 2: "a2 < b2" "a2 = a1" "b2 \<le> mx" by simp_all
          show ?thesis
          proof (cases "table_window G val a2 b2")
            case (Return v)
            with h poss room w1 w2 have "w = Return v"
              by (simp add: negamax_head_def mn_def mx_def val_def)
            moreover from table_window_cases [OF 2(1) val, of G] Return have "MIN_SCORE G \<le> v"
              by simp
            ultimately show ?thesis by simp
          next
            case w3: (Window a3 b3)
            with table_window_cases [OF 2(1) val, of G] have 3: "a3 < b3" "a2 \<le> a3" "b3 \<le> b2"
              by simp_all
            from h poss room w1 w2 w3 have b:
              "(case OpeningBook_get (book S) G P of
                  Inl f \<Rightarrow> Inl f
                | Inr v \<Rightarrow> if v \<noteq> 0 then Inr (Return (v + MIN_SCORE G - 1))
                           else if d = 0 then Inr (Return 0) else Inr (Window a3 b3)) = Inr w"
              by (simp add: negamax_head_def mn_def mx_def val_def)
            then obtain bv where bv: "OpeningBook_get (book S) G P = Inr bv"
              by (cases "OpeningBook_get (book S) G P") simp_all
            from book_get_nonneg [OF bv] have nn: "0 \<le> bv" .
            show ?thesis
            proof (cases "bv \<noteq> 0")
              case True
              with b bv have "w = Return (bv + MIN_SCORE G - 1)" by simp
              with nn True show ?thesis by simp
            next
              case False
              show ?thesis
              proof (cases "d = 0")
                case True
                with b bv False have "w = Return 0" by simp
                with z show ?thesis by simp
              next
                case nz: False
                with b bv False have "w = Window a3 b3" by simp
                with 1 2 3 mn mx show ?thesis by simp
              qed
            qed
          qed
        qed
      qed
    qed
  qed
qed

lemma negamax_fuel_ge:
  assumes "negamax_fuel n G P alpha beta d S = Inr (r, S')" and "alpha < beta"
  shows "min (MIN_SCORE G) (- (cells G div 2)) \<le> r"
proof (cases n)
  case 0
  with assms show ?thesis by simp
next
  case (Suc m)
  show ?thesis
  proof (cases "negamax_head G P alpha beta d S")
    case (Inl f)
    with assms Suc show ?thesis by (simp add: negamax_fuel_head del: negamax_fuel.simps)
  next
    case (Inr w)
    show ?thesis
    proof (cases w)
      case (Return v)
      with assms Suc Inr have "r = v" by (simp add: negamax_fuel_head del: negamax_fuel.simps)
      with negamax_head_cases [OF Inr assms(2)] Return show ?thesis by simp
    next
      case (Window a b)
      with assms Suc Inr have e:
        "explore (\<lambda>P2 a b S2. negamax_fuel m G P2 a b (if d > 0 then d - 1 else d) S2)
            G P (sort_moves G S P (possibleNonLosingMoves G P)) a b S = Inr (r, S')"
        by (simp add: negamax_fuel_head del: negamax_fuel.simps)
      from negamax_head_cases [OF Inr assms(2)] Window
      have w: "a < b" "- (cells G div 2) \<le> a" by simp_all
      from explore_ge [OF e w(1)] w(2) show ?thesis by simp
    qed
  qed
qed

subsection \<open>The byte stored\<close>

lemma stored_example:
  "negamax_fuel (Suc (Suc 0)) connect4 forced_37 1 2 (- 1) (Solver_new connect4)
   = Inr (2, \<lparr>transTable = (\<lambda>k. 0)(446097899939396 := 58), book = OpeningBook_empty 7 6,
              columnOrder = [3, 2, 4, 1, 5, 0, 6]\<rparr>)"
  by (simp add: Solver_new_connect4 forced_facts window_defs tdiv_def Let_def)

text \<open>
  C10. A call of \<open>negamax\<close> that returns either returned before the loop, and then it has
  stored nothing, or it went through the loop, and then the byte found afterwards under
  the position's key is the byte this call stored last: the encoding of the value it
  returns, as a lower bound when that value reached \<open>beta\<close> and as an upper bound
  otherwise. Whenever that value is at least \<open>MIN_SCORE\<close>, the byte is at least
  \<open>MAX_SCORE - MIN_SCORE + 2\<close> for a lower bound and at least 1 for an upper bound, so it
  is never the absent byte 0. The values \<open>negamax\<close> computes are small enough for the
  encoding not to wrap, whatever the table and the book hold and whatever the depth, as
  long as the constants of the board leave room in a byte.
\<close>

theorem stored_byte_nonzero:
  assumes ab: "alpha < beta"
    and mm: "MIN_SCORE G \<le> MAX_SCORE G"
    and fit: "cells G div 2 + MAX_SCORE G - 2 * MIN_SCORE G + 2 < 256"
             "MAX_SCORE G - 3 * MIN_SCORE G + 2 < 256"
    and run: "negamax_fuel (Suc n) G P alpha beta d S = Inr (v, S')"
    and inv: "MIN_SCORE G \<le> v"
  shows "case negamax_head G P alpha beta d S of
           Inr (Window a b) \<Rightarrow>
             TranspositionTable_get (transTable S') (key G P)
               = of_int (if b \<le> v then lower_bound_byte G v else upper_bound_byte G v) \<and>
             TranspositionTable_get (transTable S') (key G P) \<noteq> 0 \<and>
             (if b \<le> v
              then MAX_SCORE G - MIN_SCORE G + 2 \<le> uint (TranspositionTable_get (transTable S') (key G P))
              else 1 \<le> uint (TranspositionTable_get (transTable S') (key G P)))
         | _ \<Rightarrow> S' = S"
proof (cases "negamax_head G P alpha beta d S")
  case (Inl f)
  with run show ?thesis by (simp add: negamax_fuel_head del: negamax_fuel.simps)
next
  case (Inr w)
  show ?thesis
  proof (cases w)
    case (Return r)
    with run Inr show ?thesis by (simp add: negamax_fuel_head del: negamax_fuel.simps)
  next
    case (Window a b)
    let ?rec = "\<lambda>P2 a b S2. negamax_fuel n G P2 a b (if d > 0 then d - 1 else d) S2"
    let ?byte = "TranspositionTable_get (transTable S') (key G P)"
    from run Inr Window have e:
      "explore ?rec G P (sort_moves G S P (possibleNonLosingMoves G P)) a b S = Inr (v, S')"
      by (simp add: negamax_fuel_head del: negamax_fuel.simps)
    from negamax_head_cases [OF Inr ab] Window
    have w: "a < b" "b \<le> cells G div 2" by simp_all
    have nz: "1 \<le> uint x \<Longrightarrow> x \<noteq> 0" for x :: uint8 by auto
    from explore_store [OF e w(1)] obtain t where
      t: "(v < b \<and> transTable S' = TranspositionTable_put t (key G P) (upper_bound_byte G v)) \<or>
          (v \<ge> b \<and> transTable S' = TranspositionTable_put t (key G P) (lower_bound_byte G v))"
      by blast
    have "?byte = of_int (if b \<le> v then lower_bound_byte G v else upper_bound_byte G v) \<and>
          ?byte \<noteq> 0 \<and>
          (if b \<le> v then MAX_SCORE G - MIN_SCORE G + 2 \<le> uint ?byte else 1 \<le> uint ?byte)"
    proof (cases "b \<le> v")
      case True
      with t have s: "?byte = of_int (lower_bound_byte G v)" by (auto simp: table_get_put)
      from explore_high [OF e w(1) True] obtain P2 a' b' S2 S3 where
        c: "a' < b'" "?rec P2 a' b' S2 = Inr (- v, S3)" by blast
      from negamax_fuel_ge [OF c(2) c(1)] have "min (MIN_SCORE G) (- (cells G div 2)) \<le> - v" .
      then have "v \<le> - MIN_SCORE G \<or> v \<le> cells G div 2" by (auto simp: min_def split: if_splits)
      with fit have lt: "lower_bound_byte G v < 256" by (auto simp: lower_bound_byte_def)
      have ge: "MAX_SCORE G - MIN_SCORE G + 2 \<le> lower_bound_byte G v"
        using inv by (simp add: lower_bound_byte_def)
      have "uint (of_int (lower_bound_byte G v) :: uint8) = lower_bound_byte G v"
        using lt ge mm by (intro uint8_of_int) simp_all
      with s ge mm True show ?thesis using nz [of ?byte] by simp
    next
      case False
      with t have s: "?byte = of_int (upper_bound_byte G v)" by (auto simp: table_get_put)
      have c0: "0 \<le> cells G div 2" using cells_nonneg [of G] by simp
      have lt: "upper_bound_byte G v < 256"
        using False w(2) fit(1) mm c0 by (simp add: upper_bound_byte_def)
      have ge: "1 \<le> upper_bound_byte G v"
        using inv by (simp add: upper_bound_byte_def)
      have "uint (of_int (upper_bound_byte G v) :: uint8) = upper_bound_byte G v"
        using lt ge by (intro uint8_of_int) simp_all
      with s ge False show ?thesis using nz [of ?byte] by simp
    qed
    then show ?thesis
      unfolding Inr Window sum.case window.case .
  qed
qed

theorem stored_byte_nonzero_witness:
  "(1 :: int) < 2 \<and> MIN_SCORE connect4 \<le> MAX_SCORE connect4 \<and>
   cells connect4 div 2 + MAX_SCORE connect4 - 2 * MIN_SCORE connect4 + 2 < 256 \<and>
   MAX_SCORE connect4 - 3 * MIN_SCORE connect4 + 2 < 256 \<and>
   negamax_fuel (Suc (Suc 0)) connect4 forced_37 1 2 (- 1) (Solver_new connect4)
     = Inr (2, \<lparr>transTable = (\<lambda>k. 0)(446097899939396 := 58), book = OpeningBook_empty 7 6,
                columnOrder = [3, 2, 4, 1, 5, 0, 6]\<rparr>) \<and>
   MIN_SCORE connect4 \<le> 2 \<and>
   negamax_head connect4 forced_37 1 2 (- 1) (Solver_new connect4) = Inr (Window 1 2) \<and>
   TranspositionTable_get ((\<lambda>k. 0)(446097899939396 := 58)) (key connect4 forced_37) = 58 \<and>
   MAX_SCORE connect4 - MIN_SCORE connect4 + 2
     \<le> uint (TranspositionTable_get ((\<lambda>k. 0)(446097899939396 := 58)) (key connect4 forced_37))"
proof -
  have h: "(1 :: int) < 2" "MIN_SCORE connect4 \<le> MAX_SCORE connect4"
    "cells connect4 div 2 + MAX_SCORE connect4 - 2 * MIN_SCORE connect4 + 2 < 256"
    "MAX_SCORE connect4 - 3 * MIN_SCORE connect4 + 2 < 256"
    by (simp_all add: connect4_consts cells_connect4)
  have i: "MIN_SCORE connect4 \<le> 2" by (simp add: connect4_consts)
  have w: "negamax_head connect4 forced_37 1 2 (- 1) (Solver_new connect4) = Inr (Window 1 2)"
    by (simp add: negamax_head_def Solver_new_connect4 forced_facts window_defs tdiv_def Let_def)
  from stored_byte_nonzero [OF h stored_example i] w h i stored_example
  show ?thesis
    by (simp add: lower_bound_byte_def connect4_consts)
qed

section \<open>The true score\<close>

lemma score_step:
  assumes "\<not> canWinNext G P" "int (nbMoves G P) < cells G"
    and "\<forall>m \<in> set (legal_moves G P). nbMoves G (play G P m) = nbMoves G P + 1"
  shows "score G P = (case map (\<lambda>m. - score G (play G P m)) (legal_moves G P) of
                        [] \<Rightarrow> 0 | x # xs \<Rightarrow> Max (set (x # xs)))"
proof -
  obtain k where k: "nat (cells G - int (nbMoves G P)) = Suc k"
    using assms(2) by (cases "nat (cells G - int (nbMoves G P))") auto
  have kid: "minimax k G (play G P m) = score G (play G P m)" if "m \<in> set (legal_moves G P)" for m
  proof -
    have "nbMoves G (play G P m) = nbMoves G P + 1" using assms(3) that by simp
    with k have "nat (cells G - int (nbMoves G (play G P m))) = k" by linarith
    then show ?thesis by (simp add: score_def)
  qed
  have eq: "map (\<lambda>m. - minimax k G (play G P m)) (legal_moves G P)
      = map (\<lambda>m. - score G (play G P m)) (legal_moves G P)"
    using kid by simp
  have "score G P = minimax (Suc k) G P" by (simp add: score_def k)
  also have "\<dots> = (case map (\<lambda>m. - minimax k G (play G P m)) (legal_moves G P) of
                        [] \<Rightarrow> 0 | x # xs \<Rightarrow> Max (set (x # xs)))"
    using assms(1) by simp
  finally show ?thesis by (simp only: eq)
qed

lemma score_win_step:
  assumes "canWinNext G P" "int (nbMoves G P) \<le> cells G"
  shows "score G P = (cells G + 1 - int (nbMoves G P)) div 2"
proof (cases "int (nbMoves G P) < cells G")
  case True
  then obtain k where "nat (cells G - int (nbMoves G P)) = Suc k"
    by (cases "nat (cells G - int (nbMoves G P))") auto
  with assms show ?thesis by (simp add: score_def)
next
  case False
  with assms(2) have "int (nbMoves G P) = cells G" by simp
  then show ?thesis by (simp add: score_def)
qed

lemma position_ok_le: "position_ok G valid \<Longrightarrow> valid P \<Longrightarrow> int (nbMoves G P) \<le> cells G"
  by (simp add: position_ok_def)

lemma position_ok_moves:
  "position_ok G valid \<Longrightarrow> valid P \<Longrightarrow> int (nbMoves G P) < cells G \<Longrightarrow> legal_moves G P \<noteq> []"
  by (simp add: position_ok_def)

lemma position_ok_play:
  "position_ok G valid \<Longrightarrow> valid P \<Longrightarrow> \<not> canWinNext G P \<Longrightarrow> m \<in> set (legal_moves G P) \<Longrightarrow>
     valid (play G P m) \<and> nbMoves G (play G P m) = nbMoves G P + 1"
  unfolding position_ok_def by blast

lemma position_ok_non_losing:
  "position_ok G valid \<Longrightarrow> valid P \<Longrightarrow> \<not> canWinNext G P \<Longrightarrow> c < WIDTH G \<Longrightarrow>
     possibleNonLosingMoves G P AND column_mask G (int c) =
       (if possible G P AND column_mask G (int c) \<noteq> 0 \<and>
           \<not> canWinNext G (play G P (possible G P AND column_mask G (int c)))
        then possible G P AND column_mask G (int c) else 0)"
  unfolding position_ok_def by blast

lemma position_ok_some_column:
  "position_ok G valid \<Longrightarrow> valid P \<Longrightarrow> \<not> canWinNext G P \<Longrightarrow> possibleNonLosingMoves G P \<noteq> 0 \<Longrightarrow>
     \<exists>c < WIDTH G. possibleNonLosingMoves G P AND column_mask G (int c) \<noteq> 0"
  unfolding position_ok_def by blast

lemma position_ok_key:
  "position_ok G valid \<Longrightarrow> valid P \<Longrightarrow> valid Q \<Longrightarrow> key G P = key G Q \<Longrightarrow> score G P = score G Q"
  unfolding position_ok_def by blast

lemma position_ok_range:
  "position_ok G valid \<Longrightarrow> valid P \<Longrightarrow> \<not> canWinNext G P \<Longrightarrow>
     MIN_SCORE G \<le> score G P \<and> score G P \<le> MAX_SCORE G"
  unfolding position_ok_def by blast

lemma position_ok_consts:
  "position_ok G valid \<Longrightarrow>
     MIN_SCORE G \<le> MAX_SCORE G \<and> 2 * (MAX_SCORE G - MIN_SCORE G) + 2 < 256 \<and>
     MIN_SCORE G - 2 \<le> - ((cells G - 2) div 2) \<and> (cells G - 1) div 2 \<le> MAX_SCORE G + 2"
  unfolding position_ok_def by blast

lemma legal_moves_iff:
  "m \<in> set (legal_moves G P) \<longleftrightarrow>
     m \<noteq> 0 \<and> (\<exists>c < WIDTH G. m = possible G P AND column_mask G (int c))"
  by (auto simp: legal_moves_def)

lemma score_full: "cells G \<le> int (nbMoves G P) \<Longrightarrow> score G P = 0"
  by (simp add: score_def)

lemma score_win:
  assumes "position_ok G valid" "valid P" "canWinNext G P"
  shows "score G P = (cells G + 1 - int (nbMoves G P)) div 2"
  using score_win_step [OF assms(3) position_ok_le [OF assms(1,2)]] .

lemma score_unfold:
  assumes "position_ok G valid" "valid P" "\<not> canWinNext G P" "int (nbMoves G P) < cells G"
  shows "score G P = Max ((\<lambda>m. - score G (play G P m)) ` set (legal_moves G P))"
proof -
  have "\<forall>m \<in> set (legal_moves G P). nbMoves G (play G P m) = nbMoves G P + 1"
    using position_ok_play [OF assms(1-3)] by simp
  from score_step [OF assms(3,4) this] position_ok_moves [OF assms(1,2,4)]
  show ?thesis by (cases "legal_moves G P") simp_all
qed

lemma half_arith:
  fixes c n :: int
  shows "n < c \<Longrightarrow> - ((c - n) div 2) \<le> (c + 1 - n) div 2"
    and "(c - 1 - n) div 2 \<le> (c + 1 - n) div 2"
    and "(c + 1 - (n + 1)) div 2 = (c - n) div 2"
    and "(c - (n + 1)) div 2 = (c - 1 - n) div 2"
    and "(c - 1 - (n + 1)) div 2 = (c - 2 - n) div 2"
  by (presburger, presburger, simp_all add: algebra_simps)

lemma score_between:
  assumes ok: "position_ok G valid"
  shows "valid P \<Longrightarrow>
     - ((cells G - int (nbMoves G P)) div 2) \<le> score G P \<and>
     score G P \<le> (cells G + 1 - int (nbMoves G P)) div 2 \<and>
     (\<not> canWinNext G P \<longrightarrow> int (nbMoves G P) < cells G \<longrightarrow>
        score G P \<le> (cells G - 1 - int (nbMoves G P)) div 2)"
proof (induction "nat (cells G - int (nbMoves G P))" arbitrary: P)
  case 0
  with position_ok_le [OF ok, of P] have "int (nbMoves G P) = cells G" by simp
  then show ?case by (simp add: score_full)
next
  case (Suc k)
  then have lt: "int (nbMoves G P) < cells G" by linarith
  show ?case
  proof (cases "canWinNext G P")
    case True
    from score_win [OF ok Suc.prems True] half_arith(1) [OF lt] True show ?thesis by simp
  next
    case False
    let ?kids = "(\<lambda>m. - score G (play G P m)) ` set (legal_moves G P)"
    have sc: "score G P = Max ?kids"
      using score_unfold [OF ok Suc.prems False lt] .
    have ne: "?kids \<noteq> {}" "finite ?kids"
      using position_ok_moves [OF ok Suc.prems lt] by simp_all
    have kid: "- ((cells G - int (nbMoves G P)) div 2) \<le> x \<and> x \<le> (cells G - 1 - int (nbMoves G P)) div 2"
      if "x \<in> ?kids" for x
    proof -
      from that obtain m where m: "m \<in> set (legal_moves G P)" "x = - score G (play G P m)" by auto
      from position_ok_play [OF ok Suc.prems False m(1)]
      have v: "valid (play G P m)" and n: "nbMoves G (play G P m) = nbMoves G P + 1" by simp_all
      have "k = nat (cells G - int (nbMoves G (play G P m)))"
        using Suc.hyps(2) n by linarith
      from Suc.hyps(1) [OF this v] have
        "- ((cells G - int (nbMoves G (play G P m))) div 2) \<le> score G (play G P m)"
        "score G (play G P m) \<le> (cells G + 1 - int (nbMoves G (play G P m))) div 2" by simp_all
      then show ?thesis unfolding m(2) n by (simp add: half_arith)
    qed
    have "Max ?kids \<in> ?kids" using ne by (intro Max_in) simp_all
    from kid [OF this] sc half_arith(2) [of "cells G" "int (nbMoves G P)"] show ?thesis by simp
  qed
qed

lemma score_lower: "position_ok G valid \<Longrightarrow> valid P \<Longrightarrow> - ((cells G - int (nbMoves G P)) div 2) \<le> score G P"
  using score_between [of G valid P] by simp

lemma score_upper: "position_ok G valid \<Longrightarrow> valid P \<Longrightarrow> score G P \<le> (cells G + 1 - int (nbMoves G P)) div 2"
  using score_between [of G valid P] by simp

lemma score_upper_no_win:
  "position_ok G valid \<Longrightarrow> valid P \<Longrightarrow> \<not> canWinNext G P \<Longrightarrow> int (nbMoves G P) < cells G \<Longrightarrow>
     score G P \<le> (cells G - 1 - int (nbMoves G P)) div 2"
  using score_between [of G valid P] by simp

lemma score_ge_kid:
  assumes "position_ok G valid" "valid P" "\<not> canWinNext G P" "m \<in> set (legal_moves G P)"
  shows "- score G (play G P m) \<le> score G P"
proof -
  have "legal_moves G P \<noteq> []" using assms(4) by auto
  have lt: "int (nbMoves G P) < cells G"
    using position_ok_play [OF assms] position_ok_le [OF assms(1), of "play G P m"] by simp
  show ?thesis
    unfolding score_unfold [OF assms(1-3) lt] using assms(4) by (intro Max_ge) simp_all
qed

lemma score_attained:
  assumes "position_ok G valid" "valid P" "\<not> canWinNext G P" "int (nbMoves G P) < cells G"
  shows "\<exists>m \<in> set (legal_moves G P). score G P = - score G (play G P m)"
proof -
  let ?kids = "(\<lambda>m. - score G (play G P m)) ` set (legal_moves G P)"
  have "Max ?kids \<in> ?kids"
    using position_ok_moves [OF assms(1,2,4)] by (intro Max_in) simp_all
  then show ?thesis unfolding score_unfold [OF assms] by auto
qed

text \<open>The non-losing moves are the legal moves after which the opponent cannot win at once.\<close>

lemma non_losing_iff:
  assumes "position_ok G valid" "valid P" "\<not> canWinNext G P" "c < WIDTH G"
  shows "possibleNonLosingMoves G P AND column_mask G (int c) \<noteq> 0 \<longleftrightarrow>
           possible G P AND column_mask G (int c) \<in> set (legal_moves G P) \<and>
           \<not> canWinNext G (play G P (possible G P AND column_mask G (int c)))"
  using position_ok_non_losing [OF assms] assms(4) by (auto simp: legal_moves_iff)

lemma non_losing_move:
  assumes "position_ok G valid" "valid P" "\<not> canWinNext G P" "c < WIDTH G"
    and "possibleNonLosingMoves G P AND column_mask G (int c) \<noteq> 0"
  shows "possibleNonLosingMoves G P AND column_mask G (int c) = possible G P AND column_mask G (int c)"
  using position_ok_non_losing [OF assms(1-4)] assms(5) by (auto split: if_splits)

lemma score_no_defence:
  assumes ok: "position_ok G valid" and v: "valid P" and nw: "\<not> canWinNext G P"
    and none: "possibleNonLosingMoves G P = 0"
  shows "score G P = tdiv (- (cells G - int (nbMoves G P))) 2"
proof (cases "int (nbMoves G P) < cells G")
  case False
  with position_ok_le [OF ok v] have "int (nbMoves G P) = cells G" by simp
  then show ?thesis by (simp add: score_full tdiv_def)
next
  case True
  from score_attained [OF ok v nw True] obtain m where
    m: "m \<in> set (legal_moves G P)" "score G P = - score G (play G P m)" by blast
  from m(1) obtain c where c: "c < WIDTH G" "m = possible G P AND column_mask G (int c)" "m \<noteq> 0"
    by (auto simp: legal_moves_iff)
  have "canWinNext G (play G P m)"
    using position_ok_non_losing [OF ok v nw c(1)] none c by (auto split: if_splits)
  moreover from position_ok_play [OF ok v nw m(1)]
  have "valid (play G P m)" "nbMoves G (play G P m) = nbMoves G P + 1" by simp_all
  ultimately have "score G (play G P m) = (cells G - int (nbMoves G P)) div 2"
    using score_win [OF ok, of "play G P m"] by (simp add: half_arith)
  with m(2) True show ?thesis by (simp add: tdiv2_neg)
qed

lemma score_min:
  assumes ok: "position_ok G valid" and v: "valid P" and nw: "\<not> canWinNext G P"
    and some: "possibleNonLosingMoves G P \<noteq> 0"
  shows "int (nbMoves G P) < cells G"
    and "int (nbMoves G P) + 1 < cells G \<Longrightarrow> - ((cells G - 2 - int (nbMoves G P)) div 2) \<le> score G P"
    and "cells G - 2 \<le> int (nbMoves G P) \<Longrightarrow> score G P = 0"
proof -
  from position_ok_some_column [OF ok v nw some] obtain c where
    c: "c < WIDTH G" "possibleNonLosingMoves G P AND column_mask G (int c) \<noteq> 0" by blast
  let ?m = "possible G P AND column_mask G (int c)"
  from non_losing_iff [OF ok v nw c(1)] c(2)
  have m: "?m \<in> set (legal_moves G P)" "\<not> canWinNext G (play G P ?m)" by simp_all
  from position_ok_play [OF ok v nw m(1)]
  have kv: "valid (play G P ?m)" and kn: "nbMoves G (play G P ?m) = nbMoves G P + 1" by simp_all
  show lt: "int (nbMoves G P) < cells G"
    using position_ok_le [OF ok kv] kn by simp
  have ge: "- score G (play G P ?m) \<le> score G P"
    using score_ge_kid [OF ok v nw m(1)] .
  show low: "- ((cells G - 2 - int (nbMoves G P)) div 2) \<le> score G P" if "int (nbMoves G P) + 1 < cells G"
  proof -
    have "int (nbMoves G (play G P ?m)) < cells G" using kn that by simp
    from score_upper_no_win [OF ok kv m(2) this] ge show ?thesis
      unfolding kn by (simp add: half_arith)
  qed
  show "score G P = 0" if "cells G - 2 \<le> int (nbMoves G P)"
  proof -
    have "(cells G - 1 - int (nbMoves G P)) div 2 = 0"
      using that lt by simp
    then have up: "score G P \<le> 0"
      using score_upper_no_win [OF ok v nw lt] by simp
    have "0 \<le> score G P"
    proof (cases "int (nbMoves G P) + 1 < cells G")
      case True
      have "(cells G - 2 - int (nbMoves G P)) div 2 = 0"
        using that True by simp
      with low [OF True] show ?thesis by simp
    next
      case False
      then have "score G (play G P ?m) = 0" using kn by (intro score_full) simp
      with ge show ?thesis by simp
    qed
    with up show ?thesis by simp
  qed
qed

section \<open>Narrowing the window\<close>

lemma bounds_exact: "bounds alpha beta t t"
  by (simp add: bounds_def)

lemma raise_alpha_Return:
  "raise_alpha a b lo = Return v \<Longrightarrow> lo \<le> t \<Longrightarrow> bounds a b t v"
  by (auto simp: raise_alpha_def bounds_def split: if_splits)

lemma raise_alpha_Window:
  assumes "raise_alpha a b lo = Window a' b'" "a < b" "lo \<le> t"
  shows "a' < b'" and "b' = b" and "a' = max a lo" and "bounds a' b' t v \<Longrightarrow> bounds a b t v"
  using assms by (auto simp: raise_alpha_def bounds_def split: if_splits)

lemma lower_beta_Return:
  "lower_beta a b hi = Return v \<Longrightarrow> t \<le> hi \<Longrightarrow> bounds a b t v"
  by (auto simp: lower_beta_def bounds_def split: if_splits)

lemma lower_beta_Window:
  assumes "lower_beta a b hi = Window a' b'" "a < b" "t \<le> hi"
  shows "a' < b'" and "a' = a" and "b' = min b hi" and "bounds a' b' t v \<Longrightarrow> bounds a b t v"
  using assms by (auto simp: lower_beta_def bounds_def split: if_splits)

lemma table_window_Return:
  assumes "table_window G val a b = Return v"
    and "val \<noteq> 0 \<Longrightarrow> (if is_lower_bound G val then decode_lower G val \<le> t else t \<le> decode_upper G val)"
  shows "bounds a b t v"
  using assms
  by (auto simp: table_window_def split: if_splits dest: raise_alpha_Return lower_beta_Return)

lemma table_window_Window:
  assumes "table_window G val a b = Window a' b'" and "a < b"
    and "val \<noteq> 0 \<Longrightarrow> (if is_lower_bound G val then decode_lower G val \<le> t else t \<le> decode_upper G val)"
  shows "a' < b'" and "a \<le> a'" and "b' \<le> b" and "bounds a' b' t v \<Longrightarrow> bounds a b t v"
proof -
  have "a' < b' \<and> a \<le> a' \<and> b' \<le> b \<and> (bounds a' b' t v \<longrightarrow> bounds a b t v)"
  proof (cases "val = 0")
  case True
  with assms show ?thesis by (simp add: table_window_def)
next
  case False
  show ?thesis
  proof (cases "is_lower_bound G val")
    case True
    with False assms have "raise_alpha a b (decode_lower G val) = Window a' b'" "decode_lower G val \<le> t"
      by (simp_all add: table_window_def)
    from raise_alpha_Window [OF this(1) assms(2) this(2)] show ?thesis by auto
  next
    case nl: False
    with False assms have "lower_beta a b (decode_upper G val) = Window a' b'" "t \<le> decode_upper G val"
      by (simp_all add: table_window_def)
    from lower_beta_Window [OF this(1) assms(2) this(2)] show ?thesis by auto
  qed
qed
  then show "a' < b'" and "a \<le> a'" and "b' \<le> b" and "bounds a' b' t v \<Longrightarrow> bounds a b t v"
    by simp_all
qed

section \<open>The moves explored and the bounds stored\<close>

lemma MoveSorter_add_set: "set (MoveSorter_add ms m s) = insert (m, s) (set ms)"
proof -
  have "set ms = set (takeWhile (\<lambda>e. snd e > s) ms @ dropWhile (\<lambda>e. snd e > s) ms)"
    by simp
  then show ?thesis unfolding MoveSorter_add_def by (simp only: set_append set_simps) blast
qed

lemma sort_moves_fold:
  "fst ` set (foldl (\<lambda>ms i. let move = poss AND column_mask G (co ! i)
                             in if move \<noteq> 0 then MoveSorter_add ms move (moveScore G P move) else ms)
                     acc xs)
   = fst ` set acc \<union> {m. m \<noteq> 0 \<and> (\<exists>i \<in> set xs. m = poss AND column_mask G (co ! i))}"
proof (induction xs arbitrary: acc)
  case Nil
  show ?case by simp
next
  case (Cons x xs)
  show ?case
    unfolding foldl_Cons Cons.IH
    by (auto simp: Let_def MoveSorter_add_set)
qed

lemma sort_moves_set:
  assumes "columnOrder S = columnOrder (Solver_new G)"
  shows "fst ` set (sort_moves G S P poss)
         = {m. m \<noteq> 0 \<and> (\<exists>c < WIDTH G. m = poss AND column_mask G (int c))}"
proof -
  have "{columnOrder S ! i |i. i < WIDTH G} = set (columnOrder S)"
    using columnOrder_length [of G] assms by (auto simp: set_conv_nth)
  also have "\<dots> = int ` {0..<WIDTH G}"
    using assms columnOrder_set [of G] by simp
  finally have co: "{columnOrder S ! i |i. i < WIDTH G} = int ` {0..<WIDTH G}" .
  have "(\<exists>i < WIDTH G. m = poss AND column_mask G (columnOrder S ! i))
        \<longleftrightarrow> (\<exists>c < WIDTH G. m = poss AND column_mask G (int c))" for m
  proof
    assume "\<exists>i < WIDTH G. m = poss AND column_mask G (columnOrder S ! i)"
    then obtain i where i: "i < WIDTH G" "m = poss AND column_mask G (columnOrder S ! i)" by blast
    then have "columnOrder S ! i \<in> int ` {0..<WIDTH G}" using co by blast
    with i(2) show "\<exists>c < WIDTH G. m = poss AND column_mask G (int c)" by auto
  next
    assume "\<exists>c < WIDTH G. m = poss AND column_mask G (int c)"
    then obtain c where c: "c < WIDTH G" "m = poss AND column_mask G (int c)" by blast
    then have "int c \<in> {columnOrder S ! i |i. i < WIDTH G}" using co by auto
    with c(2) show "\<exists>i < WIDTH G. m = poss AND column_mask G (columnOrder S ! i)" by auto
  qed
  then have "(\<exists>i \<in> set (rev [0..<WIDTH G]). m = poss AND column_mask G (columnOrder S ! i))
        \<longleftrightarrow> (\<exists>c < WIDTH G. m = poss AND column_mask G (int c))" for m
    by (simp add: Bex_def)
  then show ?thesis
    unfolding sort_moves_def sort_moves_fold by simp
qed

lemma sort_moves_non_losing:
  assumes ok: "position_ok G valid" and v: "valid P" and nw: "\<not> canWinNext G P"
    and co: "columnOrder S = columnOrder (Solver_new G)"
  shows "fst ` set (sort_moves G S P (possibleNonLosingMoves G P))
         = {m \<in> set (legal_moves G P). \<not> canWinNext G (play G P m)}"
proof -
  have "m \<noteq> 0 \<and> (\<exists>c < WIDTH G. m = possibleNonLosingMoves G P AND column_mask G (int c))
        \<longleftrightarrow> m \<in> set (legal_moves G P) \<and> \<not> canWinNext G (play G P m)" for m
  proof
    assume "m \<noteq> 0 \<and> (\<exists>c < WIDTH G. m = possibleNonLosingMoves G P AND column_mask G (int c))"
    then obtain c where c: "c < WIDTH G" "m = possibleNonLosingMoves G P AND column_mask G (int c)" "m \<noteq> 0"
      by blast
    from non_losing_move [OF ok v nw c(1)] non_losing_iff [OF ok v nw c(1)] c(2,3)
    show "m \<in> set (legal_moves G P) \<and> \<not> canWinNext G (play G P m)" by simp
  next
    assume a: "m \<in> set (legal_moves G P) \<and> \<not> canWinNext G (play G P m)"
    then obtain c where c: "c < WIDTH G" "m = possible G P AND column_mask G (int c)" "m \<noteq> 0"
      by (auto simp: legal_moves_iff)
    from position_ok_non_losing [OF ok v nw c(1)] a c
    have "possibleNonLosingMoves G P AND column_mask G (int c) = m" by simp
    with c show "m \<noteq> 0 \<and> (\<exists>c < WIDTH G. m = possibleNonLosingMoves G P AND column_mask G (int c))"
      by auto
  qed
  then show ?thesis unfolding sort_moves_set [OF co] by auto
qed

lemma table_sound_put_lower:
  assumes ok: "position_ok G valid" and t: "table_sound G valid t" and v: "valid P"
    and s: "s \<le> score G P" "MIN_SCORE G - 1 \<le> s" and nw: "\<not> canWinNext G P"
  shows "table_sound G valid (TranspositionTable_put t (key G P) (lower_bound_byte G s))"
  unfolding table_sound_def
proof (intro allI impI)
  fix Q
  assume Q: "valid Q" "\<not> canWinNext G Q"
    and nz: "uint (TranspositionTable_get (TranspositionTable_put t (key G P) (lower_bound_byte G s)) (key G Q)) \<noteq> 0"
  let ?b = "uint (TranspositionTable_get (TranspositionTable_put t (key G P) (lower_bound_byte G s)) (key G Q))"
  show "if is_lower_bound G ?b then decode_lower G ?b \<le> score G Q else score G Q \<le> decode_upper G ?b"
  proof (cases "key G Q = key G P")
    case False
    with t Q nz show ?thesis by (simp add: table_sound_def table_get_put)
  next
    case True
    with position_ok_key [OF ok Q(1) v] have sc: "score G Q = score G P" by simp
    from position_ok_range [OF ok v nw] position_ok_consts [OF ok] s
    have r: "0 \<le> lower_bound_byte G s" "lower_bound_byte G s < 256"
      by (simp_all add: lower_bound_byte_def)
    have b: "?b = lower_bound_byte G s"
      using True uint8_of_int [OF r] by (simp add: table_get_put)
    show ?thesis
      unfolding b sc using s position_ok_range [OF ok v nw]
      by (simp add: is_lower_bound_def decode_lower_def decode_upper_def lower_bound_byte_def)
  qed
qed

lemma table_sound_put_upper:
  assumes ok: "position_ok G valid" and t: "table_sound G valid t" and v: "valid P"
    and a: "score G P \<le> a" "a \<le> MAX_SCORE G + 1" and nw: "\<not> canWinNext G P"
  shows "table_sound G valid (TranspositionTable_put t (key G P) (upper_bound_byte G a))"
  unfolding table_sound_def
proof (intro allI impI)
  fix Q
  assume Q: "valid Q" "\<not> canWinNext G Q"
    and nz: "uint (TranspositionTable_get (TranspositionTable_put t (key G P) (upper_bound_byte G a)) (key G Q)) \<noteq> 0"
  let ?b = "uint (TranspositionTable_get (TranspositionTable_put t (key G P) (upper_bound_byte G a)) (key G Q))"
  show "if is_lower_bound G ?b then decode_lower G ?b \<le> score G Q else score G Q \<le> decode_upper G ?b"
  proof (cases "key G Q = key G P")
    case False
    with t Q nz show ?thesis by (simp add: table_sound_def table_get_put)
  next
    case True
    with position_ok_key [OF ok Q(1) v] have sc: "score G Q = score G P" by simp
    from position_ok_range [OF ok v nw] position_ok_consts [OF ok] a
    have r: "0 \<le> upper_bound_byte G a" "upper_bound_byte G a < 256"
      by (simp_all add: upper_bound_byte_def)
    have b: "?b = upper_bound_byte G a"
      using True uint8_of_int [OF r] by (simp add: table_get_put)
    show ?thesis
      unfolding b sc using a position_ok_range [OF ok v nw]
      by (simp add: is_lower_bound_def decode_lower_def decode_upper_def upper_bound_byte_def)
  qed
qed

lemma solver_ok_put:
  "solver_ok G valid S \<Longrightarrow> table_sound G valid t \<Longrightarrow> solver_ok G valid (S\<lparr>transTable := t\<rparr>)"
  by (simp add: solver_ok_def)

section \<open>The correctness of negamax\<close>

lemma bounds_fail_high:
  assumes "bounds (- beta) (- alpha) tc w" "alpha < beta" "beta \<le> - w"
  shows "tc \<le> w"
  using assms unfolding bounds_def by (cases "tc \<le> - beta"; cases "- alpha \<le> tc"; simp)

lemma bounds_inside:
  assumes "bounds (- beta) (- alpha) tc w" "alpha < beta" "- w < beta" "alpha < - w"
  shows "w = tc"
  using assms unfolding bounds_def by (cases "tc \<le> - beta"; cases "- alpha \<le> tc"; simp)

lemma bounds_fail_low:
  assumes "bounds (- beta) (- alpha) tc w" "alpha < beta" "- w \<le> alpha"
  shows "- tc \<le> alpha"
  using assms unfolding bounds_def by (cases "tc \<le> - beta"; cases "- alpha \<le> tc"; simp)

lemma explore_correct:
  assumes ok: "position_ok G valid" and v: "valid P" and nw: "\<not> canWinNext G P"
    and rec: "\<And>m a b S. m \<in> set (legal_moves G P) \<Longrightarrow> \<not> canWinNext G (play G P m) \<Longrightarrow> a < b \<Longrightarrow>
                solver_ok G valid S \<Longrightarrow>
                \<exists>w S'. rec (play G P m) a b S = Inr (w, S') \<and> bounds a b (score G (play G P m)) w \<and>
                        solver_ok G valid S'"
  shows "(\<forall>e \<in> set ms. fst e \<noteq> 0 \<and> fst e \<in> set (legal_moves G P) \<and> \<not> canWinNext G (play G P (fst e))) \<Longrightarrow>
     alpha < beta \<Longrightarrow> solver_ok G valid S \<Longrightarrow>
     score G P \<le> alpha \<or> (\<exists>e \<in> set ms. score G P = - score G (play G P (fst e))) \<Longrightarrow>
     MIN_SCORE G - 2 \<le> alpha \<Longrightarrow> beta \<le> MAX_SCORE G + 2 \<Longrightarrow>
     \<exists>w S'. explore rec G P ms alpha beta S = Inr (w, S') \<and> bounds alpha beta (score G P) w \<and>
             solver_ok G valid S'"
proof (induction ms arbitrary: alpha S)
  case Nil
  then have le: "score G P \<le> alpha" by simp
  have "table_sound G valid (TranspositionTable_put (transTable S) (key G P) (upper_bound_byte G alpha))"
    using Nil.prems le by (intro table_sound_put_upper [OF ok _ v _ _ nw]) (simp_all add: solver_ok_def)
  with Nil.prems le show ?case
    by (simp add: solver_ok_put bounds_def)
next
  case (Cons e ms)
  let ?m = "fst e"
  let ?tc = "score G (play G P ?m)"
  from Cons.prems(1) have m: "?m \<noteq> 0" "?m \<in> set (legal_moves G P)" "\<not> canWinNext G (play G P ?m)"
    by simp_all
  from Cons.prems(2) have w: "- beta < - alpha" by simp
  from rec [OF m(2,3) w Cons.prems(3)] obtain w S1 where
    r: "rec (play G P ?m) (- beta) (- alpha) S = Inr (w, S1)"
    and b: "bounds (- beta) (- alpha) ?tc w" and S1: "solver_ok G valid S1" by blast
  have ge: "- ?tc \<le> score G P"
    using score_ge_kid [OF ok v nw m(2)] .
  show ?case
  proof (cases "beta \<le> - w")
    case True
    from bounds_fail_high [OF b Cons.prems(2) True] ge have le: "- w \<le> score G P" by simp
    have "table_sound G valid (TranspositionTable_put (transTable S1) (key G P) (lower_bound_byte G (- w)))"
      using S1 le True Cons.prems(2,5)
      by (intro table_sound_put_lower [OF ok _ v _ _ nw]) (simp_all add: solver_ok_def)
    with S1 have "solver_ok G valid (S1\<lparr>transTable :=
        TranspositionTable_put (transTable S1) (key G P) (lower_bound_byte G (- w))\<rparr>)"
      by (rule solver_ok_put)
    moreover have "bounds alpha beta (score G P) (- w)"
      using True le Cons.prems(2) by (simp add: bounds_def)
    ultimately show ?thesis using m(1) r True by (simp add: Let_def)
  next
    case False
    let ?a = "if - w > alpha then - w else alpha"
    have a_lt: "?a < beta" using False Cons.prems(2) by simp
    have raised: "- w = - ?tc" if "alpha < - w"
      using bounds_inside [OF b Cons.prems(2) _ that] False by simp
    have a_le: "alpha < ?a \<Longrightarrow> ?a \<le> score G P"
      using raised ge by (simp split: if_splits)
    have rest: "score G P \<le> ?a \<or> (\<exists>e \<in> set ms. score G P = - score G (play G P (fst e)))"
    proof (cases "score G P \<le> alpha")
      case True
      then show ?thesis by simp
    next
      case na: False
      with Cons.prems(4) consider "score G P = - ?tc" | "\<exists>e \<in> set ms. score G P = - score G (play G P (fst e))"
        by auto
      then show ?thesis
      proof cases
        case 1
        show ?thesis
        proof (cases "alpha < - w")
          case True
          with raised 1 show ?thesis by simp
        next
          case nr: False
          then have "- ?tc \<le> alpha" using bounds_fail_low [OF b Cons.prems(2)] by simp
          with 1 na show ?thesis by simp
        qed
      next
        case 2
        then show ?thesis by simp
      qed
    qed
    have "\<exists>w' S'. explore rec G P ms ?a beta S1 = Inr (w', S') \<and> bounds ?a beta (score G P) w' \<and>
             solver_ok G valid S'"
      using Cons.prems(1,5,6) by (intro Cons.IH [OF _ a_lt S1 rest]) (simp_all split: if_splits)
    then obtain w' S' where e: "explore rec G P ms ?a beta S1 = Inr (w', S')"
      and b': "bounds ?a beta (score G P) w'" and S': "solver_ok G valid S'" by blast
    have "bounds alpha beta (score G P) w'"
      using b' a_le a_lt Cons.prems(2) unfolding bounds_def
      by (cases "alpha < ?a"; simp split: if_splits; linarith)
    with e S' show ?thesis using m(1) r False by (simp add: Let_def)
  qed
qed

lemma negamax_fuel_correct:
  assumes ok: "position_ok G valid" and d: "d < 0"
  shows "valid P \<Longrightarrow> \<not> canWinNext G P \<Longrightarrow> alpha < beta \<Longrightarrow> solver_ok G valid S \<Longrightarrow>
     nat (cells G - int (nbMoves G P)) < n \<Longrightarrow>
     \<exists>w S'. negamax_fuel n G P alpha beta d S = Inr (w, S') \<and> bounds alpha beta (score G P) w \<and>
             solver_ok G valid S'"
proof (induction n arbitrary: P alpha beta S)
  case 0
  then show ?case by simp
next
  case (Suc n)
  note v = Suc.prems(1) and nw = Suc.prems(2) and ab = Suc.prems(3) and S = Suc.prems(4)
  let ?t = "score G P"
  let ?nb = "int (nbMoves G P)"
  show ?case
  proof (cases "possibleNonLosingMoves G P = 0")
    case True
    with score_no_defence [OF ok v nw True] S show ?thesis
      by (simp add: Let_def bounds_exact)
  next
    case some: False
    note mn = score_min [OF ok v nw some]
    show ?thesis
    proof (cases "cells G - 2 \<le> ?nb")
      case True
      with mn(3) some S show ?thesis by (simp add: Let_def bounds_exact)
    next
      case deep: False
      let ?mn = "tdiv (- (cells G - 2 - ?nb)) 2"
      let ?mx = "tdiv (cells G - 1 - ?nb) 2"
      have mn_eq: "?mn = - ((cells G - 2 - ?nb) div 2)" using deep by (simp add: tdiv2_neg)
      have mx_eq: "?mx = (cells G - 1 - ?nb) div 2" using deep by (simp add: tdiv2_nonneg)
      have lo: "?mn \<le> ?t" unfolding mn_eq using mn(2) deep by simp
      have hi: "?t \<le> ?mx" unfolding mx_eq using score_upper_no_win [OF ok v nw mn(1)] by simp
      have mn_ge: "MIN_SCORE G - 2 \<le> ?mn"
      proof -
        have "(cells G - 2 - ?nb) div 2 \<le> (cells G - 2) div 2" by (intro zdiv_mono1) simp_all
        with position_ok_consts [OF ok] show ?thesis unfolding mn_eq by simp
      qed
      have mx_le: "?mx \<le> MAX_SCORE G + 2"
      proof -
        have "(cells G - 1 - ?nb) div 2 \<le> (cells G - 1) div 2" by (intro zdiv_mono1) simp_all
        with position_ok_consts [OF ok] show ?thesis unfolding mx_eq by simp
      qed
      have head: "negamax_fuel (Suc n) G P alpha beta d S =
        (case raise_alpha alpha beta ?mn of
           Return v \<Rightarrow> Inr (v, S)
         | Window alpha1 beta1 \<Rightarrow>
        (case lower_beta alpha1 beta1 ?mx of
           Return v \<Rightarrow> Inr (v, S)
         | Window alpha2 beta2 \<Rightarrow>
        (case table_window G (uint (TranspositionTable_get (transTable S) (key G P))) alpha2 beta2 of
           Return v \<Rightarrow> Inr (v, S)
         | Window alpha3 beta3 \<Rightarrow>
        (case OpeningBook_get (book S) G P of
           Inl f \<Rightarrow> Inl f
         | Inr val \<Rightarrow>
        if val \<noteq> 0 then Inr (val + MIN_SCORE G - 1, S)
        else if d = 0 then Inr (0, S)
        else
          explore (\<lambda>P2 a b S2. negamax_fuel n G P2 a b (if d > 0 then d - 1 else d) S2)
            G P (sort_moves G S P (possibleNonLosingMoves G P)) alpha3 beta3 S))))"
        using some deep by (simp add: Let_def)
      show ?thesis
      proof (cases "raise_alpha alpha beta ?mn")
        case (Return x)
        with raise_alpha_Return [OF Return lo] S show ?thesis unfolding head Return by simp
      next
        case (Window a1 b1)
        note w1 = raise_alpha_Window [OF Window ab lo]
        show ?thesis
        proof (cases "lower_beta a1 b1 ?mx")
          case (Return x)
          with lower_beta_Return [OF Return hi] w1(4) S show ?thesis
            unfolding head Window window.case Return by simp
        next
          case W2: (Window a2 b2)
          note w2 = lower_beta_Window [OF W2 w1(1) hi]
          let ?val = "uint (TranspositionTable_get (transTable S) (key G P))"
          have tt: "?val \<noteq> 0 \<Longrightarrow>
                (if is_lower_bound G ?val then decode_lower G ?val \<le> ?t else ?t \<le> decode_upper G ?val)"
            using S v nw unfolding solver_ok_def table_sound_def by simp
          show ?thesis
          proof (cases "table_window G ?val a2 b2")
            case (Return x)
            with table_window_Return [OF Return tt] w1(4) w2(4) S show ?thesis
              unfolding head Window window.case W2 Return by simp
          next
            case W3: (Window a3 b3)
            note w3 = table_window_Window [OF W3 w2(1) tt]
            have up3: "\<And>x. bounds a3 b3 ?t x \<Longrightarrow> bounds alpha beta ?t x"
              using w1(4) w2(4) w3(4) by simp
            from S v nw obtain val where
              bk: "OpeningBook_get (book S) G P = Inr val" "val \<noteq> 0 \<Longrightarrow> val + MIN_SCORE G - 1 = ?t"
              unfolding solver_ok_def book_sound_def by blast
            show ?thesis
            proof (cases "val = 0")
              case False
              with bk(2) S up3 show ?thesis
                unfolding head Window window.case W2 W3 bk(1) by (simp add: bounds_exact)
            next
              case True
              let ?rec = "\<lambda>P2 a b S2. negamax_fuel n G P2 a b (if d > 0 then d - 1 else d) S2"
              let ?ms = "sort_moves G S P (possibleNonLosingMoves G P)"
              have co: "columnOrder S = columnOrder (Solver_new G)" using S by (simp add: solver_ok_def)
              note sm = sort_moves_non_losing [OF ok v nw co]
              have rec: "\<exists>w S'. ?rec (play G P m) a b S2 = Inr (w, S') \<and>
                          bounds a b (score G (play G P m)) w \<and> solver_ok G valid S'"
                if "m \<in> set (legal_moves G P)" "\<not> canWinNext G (play G P m)" "a < b" "solver_ok G valid S2"
                for m a b S2
              proof -
                from position_ok_play [OF ok v nw that(1)]
                have kv: "valid (play G P m)" and kn: "nbMoves G (play G P m) = nbMoves G P + 1" by simp_all
                have "nat (cells G - int (nbMoves G (play G P m))) < n"
                  using Suc.prems(5) kn mn(1) by simp
                from Suc.IH [OF kv that(2,3,4) this] d show ?thesis by simp
              qed
              have ms: "\<forall>e \<in> set ?ms. fst e \<noteq> 0 \<and> fst e \<in> set (legal_moves G P) \<and>
                          \<not> canWinNext G (play G P (fst e))"
              proof
                fix e assume "e \<in> set ?ms"
                then have "fst e \<in> fst ` set ?ms" by simp
                then have "fst e \<in> set (legal_moves G P) \<and> \<not> canWinNext G (play G P (fst e))"
                  unfolding sm by simp
                then show "fst e \<noteq> 0 \<and> fst e \<in> set (legal_moves G P) \<and> \<not> canWinNext G (play G P (fst e))"
                  by (simp add: legal_moves_iff)
              qed
              have a3_ge: "?mn \<le> a3" using w3(2) w2(2) w1(3) by simp
              have b3_le: "b3 \<le> ?mx" using w3(3) w2(3) by simp
              have attained: "?t \<le> a3 \<or> (\<exists>e \<in> set ?ms. ?t = - score G (play G P (fst e)))"
              proof -
                from score_attained [OF ok v nw mn(1)] obtain m where
                  m: "m \<in> set (legal_moves G P)" "?t = - score G (play G P m)" by blast
                show ?thesis
                proof (cases "canWinNext G (play G P m)")
                  case False
                  with m(1) have "m \<in> fst ` set ?ms" unfolding sm by simp
                  with m(2) show ?thesis by auto
                next
                  case True
                  from position_ok_play [OF ok v nw m(1)]
                  have kv: "valid (play G P m)" and kn: "nbMoves G (play G P m) = nbMoves G P + 1" by simp_all
                  from score_win [OF ok kv True] kn have "score G (play G P m) = (cells G - ?nb) div 2"
                    by (simp add: half_arith)
                  moreover have "(cells G - 2 - ?nb) div 2 \<le> (cells G - ?nb) div 2"
                    by (intro zdiv_mono1) simp_all
                  ultimately have "?t \<le> ?mn" unfolding mn_eq using m(2) by simp
                  with a3_ge show ?thesis by simp
                qed
              qed
              have "\<exists>w S'. explore ?rec G P ?ms a3 b3 S = Inr (w, S') \<and> bounds a3 b3 ?t w \<and>
                      solver_ok G valid S'"
                using a3_ge mn_ge b3_le mx_le
                by (intro explore_correct [OF ok v nw rec ms w3(1) S attained]) simp_all
              then obtain w S' where "explore ?rec G P ?ms a3 b3 S = Inr (w, S')"
                "bounds a3 b3 ?t w" "solver_ok G valid S'" by blast
              with up3 True d show ?thesis
                unfolding head Window window.case W2 W3 bk(1) by simp
            qed
          qed
        qed
      qed
    qed
  qed
qed

lemma fuel_enough: "nat (cells G - int (nbMoves G P)) < Suc (WIDTH G * HEIGHT G)"
proof -
  have "cells G - int (nbMoves G P) \<le> int (WIDTH G * HEIGHT G)"
    by (simp add: cells_def)
  then show ?thesis by linarith
qed

lemma negamax_probe:
  assumes "position_ok G valid" and "solver_ok G valid S"
    and "valid P" and "\<not> canWinNext G P" and "d < 0"
  shows "\<exists>r S'. negamax G P med (med + 1) d S = Inr (r, S') \<and> solver_ok G valid S' \<and>
           (if score G P \<le> med then score G P \<le> r \<and> r \<le> med else med < r \<and> r \<le> score G P)"
proof -
  have "med < med + 1" by simp
  from negamax_fuel_correct [OF assms(1,5,3,4) this assms(2) fuel_enough]
  obtain r S' where "negamax G P med (med + 1) d S = Inr (r, S')" "bounds med (med + 1) (score G P) r"
    "solver_ok G valid S'"
    unfolding negamax_def by blast
  then show ?thesis unfolding bounds_def by (cases "score G P \<le> med") auto
qed

lemma solve_loop_exact:
  "position_ok G valid \<Longrightarrow> valid P \<Longrightarrow> \<not> canWinNext G P \<Longrightarrow> solver_ok G valid S \<Longrightarrow>
     mn \<le> score G P \<Longrightarrow> score G P \<le> mx \<Longrightarrow> d < 0 \<Longrightarrow>
     \<exists>S'. solve_loop G P d mn mx S = Inr ((score G P, score G P), S') \<and> solver_ok G valid S'"
proof (induction G P d mn mx S rule: solve_loop.induct)
  case (1 G P d mn mx S)
  show ?case
  proof (cases "mn < mx")
    case False
    with "1.prems"(5,6) have "mn = score G P" "mx = score G P" by simp_all
    with False "1.prems"(4) show ?thesis by (subst solve_loop.simps) simp
  next
    case True
    let ?med = "midpoint mn mx"
    from negamax_probe [OF "1.prems"(1,4,2,3), of d ?med] "1.prems"(7)
    obtain r S' where r: "negamax G P ?med (?med + 1) d S = Inr (r, S')" and S': "solver_ok G valid S'"
      and b: "if score G P \<le> ?med then score G P \<le> r \<and> r \<le> ?med else ?med < r \<and> r \<le> score G P"
      by blast
    show ?thesis
    proof (cases "r \<le> ?med")
      case le: True
      with b have "score G P \<le> r" by (simp split: if_splits)
      from "1.IH"(1) [OF True r refl le "1.prems"(1,2,3) S' "1.prems"(5) this "1.prems"(7)]
      show ?thesis using True r le by (subst solve_loop.simps) simp
    next
      case gt: False
      with b have "r \<le> score G P" by (simp split: if_splits)
      from "1.IH"(2) [OF True r refl gt "1.prems"(1,2,3) S' this "1.prems"(6,7)]
      show ?thesis using True r gt by (subst solve_loop.simps) simp
    qed
  qed
qed

text \<open>
  C1. Let \<open>P\<close> be a position \<open>negamax\<close> may be called on (nobody has won, the side to move
  cannot win on its next move), \<open>alpha < beta\<close>, the depth budget negative (unlimited),
  and the caches sound: every table entry bounds the score of the positions of its key,
  every book entry is the score. Then \<open>negamax\<close> returns a value \<open>v\<close>, without a fault
  and within the recursion depth the board allows, such that \<open>v \<le> alpha\<close> if the true
  score is at most \<open>alpha\<close>, \<open>v \<ge> beta\<close> if it is at least \<open>beta\<close>, and \<open>v\<close> is the true
  score if that lies strictly between them; the caches it leaves are sound again.
\<close>

theorem negamax_correct:
  assumes "position_ok G valid" and "solver_ok G valid S"
    and "valid P" and "\<not> canWinNext G P" and "alpha < beta" and "d < 0"
  shows "\<exists>v S'. negamax G P alpha beta d S = Inr (v, S') \<and>
           (score G P \<le> alpha \<longrightarrow> v \<le> alpha) \<and>
           (beta \<le> score G P \<longrightarrow> beta \<le> v) \<and>
           (alpha < score G P \<and> score G P < beta \<longrightarrow> v = score G P) \<and>
           solver_ok G valid S'"
proof -
  from negamax_fuel_correct [OF assms(1,6,3,4,5,2) fuel_enough]
  obtain v S' where "negamax G P alpha beta d S = Inr (v, S')" "bounds alpha beta (score G P) v"
    "solver_ok G valid S'"
    unfolding negamax_def by blast
  then show ?thesis unfolding bounds_def by blast
qed

section \<open>Running at any depth\<close>

lemma solver_ok_runs: "solver_ok G valid S \<Longrightarrow> solver_runs G valid S"
  unfolding solver_ok_def solver_runs_def book_sound_def by blast

lemma solver_runs_put: "solver_runs G valid S \<Longrightarrow> solver_runs G valid (S\<lparr>transTable := t\<rparr>)"
  by (simp add: solver_runs_def)

lemma explore_total:
  assumes rec: "\<And>m a b S. m \<in> M \<Longrightarrow> solver_runs G valid S \<Longrightarrow>
                  \<exists>w S'. rec (play G P m) a b S = Inr (w, S') \<and> solver_runs G valid S'"
  shows "\<forall>e \<in> set ms. fst e \<in> M \<Longrightarrow> solver_runs G valid S \<Longrightarrow>
           \<exists>w S'. explore rec G P ms alpha beta S = Inr (w, S') \<and> solver_runs G valid S'"
proof (induction ms arbitrary: alpha S)
  case Nil
  then show ?case by (simp add: solver_runs_put)
next
  case (Cons e ms)
  show ?case
  proof (cases "fst e = 0")
    case True
    with Cons.prems show ?thesis by (simp add: solver_runs_put)
  next
    case False
    from Cons.prems have "fst e \<in> M" by simp
    from rec [OF this Cons.prems(2)] obtain w S1 where
      r: "rec (play G P (fst e)) (- beta) (- alpha) S = Inr (w, S1)" and S1: "solver_runs G valid S1"
      by blast
    show ?thesis
    proof (cases "beta \<le> - w")
      case True
      with False r S1 show ?thesis by (simp add: Let_def solver_runs_put)
    next
      case nb: False
      from Cons.IH [OF _ S1, of "if alpha < - w then - w else alpha"] Cons.prems(1)
      obtain w' S' where "explore rec G P ms (if alpha < - w then - w else alpha) beta S1 = Inr (w', S')"
        "solver_runs G valid S'" by auto
      with False r nb show ?thesis by (simp add: Let_def)
    qed
  qed
qed

lemma negamax_fuel_total:
  assumes ok: "position_ok G valid"
  shows "valid P \<Longrightarrow> \<not> canWinNext G P \<Longrightarrow> solver_runs G valid S \<Longrightarrow>
     nat (cells G - int (nbMoves G P)) < n \<Longrightarrow>
     \<exists>w S'. negamax_fuel n G P alpha beta d S = Inr (w, S') \<and> solver_runs G valid S'"
proof (induction n arbitrary: P alpha beta d S)
  case 0
  then show ?case by simp
next
  case (Suc n)
  note v = Suc.prems(1) and nw = Suc.prems(2) and S = Suc.prems(3)
  let ?M = "{m \<in> set (legal_moves G P). \<not> canWinNext G (play G P m)}"
  let ?d = "if d > 0 then d - 1 else d"
  let ?rec = "\<lambda>P2 a b S2. negamax_fuel n G P2 a b ?d S2"
  let ?ms = "sort_moves G S P (possibleNonLosingMoves G P)"
  have rec: "\<exists>w S'. ?rec (play G P m) a b S2 = Inr (w, S') \<and> solver_runs G valid S'"
    if "m \<in> ?M" "solver_runs G valid S2" for m a b S2
  proof -
    from that(1) have m: "m \<in> set (legal_moves G P)" "\<not> canWinNext G (play G P m)" by simp_all
    from position_ok_play [OF ok v nw m(1)]
    have kv: "valid (play G P m)" and kn: "nbMoves G (play G P m) = nbMoves G P + 1" by simp_all
    have lt: "int (nbMoves G P) < cells G"
      using position_ok_le [OF ok kv] kn by simp
    have "nat (cells G - int (nbMoves G (play G P m))) < n"
      using Suc.prems(4) kn lt by simp
    from Suc.IH [OF kv m(2) that(2) this] show ?thesis .
  qed
  have co: "columnOrder S = columnOrder (Solver_new G)" using S by (simp add: solver_runs_def)
  have "\<forall>e \<in> set ?ms. fst e \<in> ?M"
    using sort_moves_non_losing [OF ok v nw co] by auto
  from explore_total [of ?M G valid ?rec P, OF rec this S]
  have ex: "\<exists>w S'. explore ?rec G P ?ms a b S = Inr (w, S') \<and> solver_runs G valid S'" for a b
    by blast
  from S v nw obtain val where bk: "OpeningBook_get (book S) G P = Inr val"
    unfolding solver_runs_def by blast
  show ?case
    unfolding negamax_fuel.simps Let_def bk
    using S ex by (auto split: window.splits)
qed

lemma solve_loop_total:
  "position_ok G valid \<Longrightarrow> valid P \<Longrightarrow> \<not> canWinNext G P \<Longrightarrow> solver_runs G valid S \<Longrightarrow>
     \<exists>mn' mx' S'. solve_loop G P d mn mx S = Inr ((mn', mx'), S') \<and> solver_runs G valid S' \<and>
        mn \<le> mn' \<and> mx' \<le> mx \<and> mx' \<le> mn'"
proof (induction G P d mn mx S rule: solve_loop.induct)
  case (1 G P d mn mx S)
  show ?case
  proof (cases "mn < mx")
    case False
    with "1.prems"(4) show ?thesis by (subst solve_loop.simps) simp
  next
    case True
    let ?med = "midpoint mn mx"
    note mid = midpoint_range [OF True]
    from negamax_fuel_total [OF "1.prems"(1,2,3,4) fuel_enough, of ?med "?med + 1" d]
    obtain r S' where r: "negamax G P ?med (?med + 1) d S = Inr (r, S')" and S': "solver_runs G valid S'"
      unfolding negamax_def by blast
    show ?thesis
    proof (cases "r \<le> ?med")
      case le: True
      from "1.IH"(1) [OF True r refl le "1.prems"(1,2,3) S']
      obtain mn' mx' S'' where "solve_loop G P d mn r S' = Inr ((mn', mx'), S'')"
        "solver_runs G valid S''" "mn \<le> mn'" "mx' \<le> r" "mx' \<le> mn'" by blast
      with True r le mid show ?thesis by (subst solve_loop.simps) simp
    next
      case gt: False
      from "1.IH"(2) [OF True r refl gt "1.prems"(1,2,3) S']
      obtain mn' mx' S'' where "solve_loop G P d r mx S' = Inr ((mn', mx'), S'')"
        "solver_runs G valid S''" "r \<le> mn'" "mx' \<le> mx" "mx' \<le> mn'" by blast
      with True r gt mid show ?thesis by (subst solve_loop.simps) simp
    qed
  qed
qed

section \<open>The binary search of solve\<close>

lemma solve_loop_exit: "\<not> mn < mx \<Longrightarrow> solve_loop G P d mn mx S = Inr ((mn, mx), S)"
  by (subst solve_loop.simps) simp

lemma solve_loop_step:
  "mn < mx \<Longrightarrow> negamax G P (midpoint mn mx) (midpoint mn mx + 1) d S = Inr (r, S') \<Longrightarrow>
     solve_loop G P d mn mx S =
       (if r \<le> midpoint mn mx then solve_loop G P d mn r S' else solve_loop G P d r mx S')"
  by (subst solve_loop.simps) simp

lemma solve_window:
  assumes "position_ok G valid" "valid P"
  shows "tdiv (- (cells G - int (nbMoves G P))) 2 \<le> score G P"
    and "score G P \<le> tdiv (cells G + 1 - int (nbMoves G P)) 2"
proof -
  have le: "int (nbMoves G P) \<le> cells G" using position_ok_le [OF assms] .
  then have "tdiv (- (cells G - int (nbMoves G P))) 2 = - ((cells G - int (nbMoves G P)) div 2)"
    by (simp add: tdiv2_neg)
  with score_lower [OF assms] show "tdiv (- (cells G - int (nbMoves G P))) 2 \<le> score G P" by simp
  have "tdiv (cells G + 1 - int (nbMoves G P)) 2 = (cells G + 1 - int (nbMoves G P)) div 2"
    using le by (simp add: tdiv2_nonneg)
  with score_upper [OF assms] show "score G P \<le> tdiv (cells G + 1 - int (nbMoves G P)) 2" by simp
qed


lemma midpoint_weak: "midpoint (- 1) 1 = 0" "midpoint (- 1) 0 = - 1"
  by (simp_all add: midpoint_def tdiv_def)

lemma weak_loop_sign:
  assumes ok: "position_ok G valid" and S: "solver_ok G valid S" and v: "valid P"
    and nw: "\<not> canWinNext G P" and d: "d < 0"
  shows "\<exists>mn' mx' S'. solve_loop G P d (- 1) 1 S = Inr ((mn', mx'), S') \<and>
           (score G P < 0 \<longrightarrow> mn' = - 1) \<and> (score G P = 0 \<longrightarrow> mn' = 0) \<and>
           (0 < score G P \<longrightarrow> 1 \<le> mn' \<and> mn' \<le> score G P)"
proof -
  from negamax_probe [OF ok S v nw d, of 0] obtain r1 S1 where
    r1: "negamax G P 0 (0 + 1) d S = Inr (r1, S1)" and S1: "solver_ok G valid S1"
    and b1: "if score G P \<le> 0 then score G P \<le> r1 \<and> r1 \<le> 0 else 0 < r1 \<and> r1 \<le> score G P"
    by blast
  have step1: "solve_loop G P d (- 1) 1 S =
      (if r1 \<le> 0 then solve_loop G P d (- 1) r1 S1 else solve_loop G P d r1 1 S1)"
    using solve_loop_step [of "- 1" 1 G P d S r1 S1] r1 by (simp add: midpoint_weak)
  show ?thesis
  proof (cases "score G P \<le> 0")
    case False
    with b1 have "0 < r1" "r1 \<le> score G P" by simp_all
    then show ?thesis using False by (simp add: step1 solve_loop_exit)
  next
    case True
    with b1 have r: "score G P \<le> r1" "r1 \<le> 0" by simp_all
    show ?thesis
    proof (cases "r1 \<le> - 1")
      case True
      with r show ?thesis by (simp add: step1 solve_loop_exit)
    next
      case False
      with r have r0: "r1 = 0" by simp
      from negamax_probe [OF ok S1 v nw d, of "- 1"] obtain r2 S2 where
        r2: "negamax G P (- 1) (- 1 + 1) d S1 = Inr (r2, S2)"
        and b2: "if score G P \<le> - 1 then score G P \<le> r2 \<and> r2 \<le> - 1 else - 1 < r2 \<and> r2 \<le> score G P"
        by blast
      have step2: "solve_loop G P d (- 1) 0 S1 =
          (if r2 \<le> - 1 then solve_loop G P d (- 1) r2 S2 else solve_loop G P d r2 0 S2)"
        using solve_loop_step [of "- 1" 0 G P d S1 r2 S2] r2 by (simp add: midpoint_weak)
      show ?thesis
      proof (cases "score G P \<le> - 1")
        case True
        with b2 show ?thesis by (simp add: step1 r0 step2 solve_loop_exit)
      next
        case False
        with \<open>score G P \<le> 0\<close> have "score G P = 0" by simp
        with b2 have "r2 = 0" by simp
        with \<open>score G P = 0\<close> show ?thesis by (simp add: step1 r0 step2 solve_loop_exit)
      qed
    qed
  qed
qed


text \<open>
  C4, amended. For every position and every depth budget \<open>solve\<close> with \<open>weak = true\<close>
  returns a value: the fastest-win score \<open>(WIDTH * HEIGHT + 1 - nbMoves) / 2\<close> when the
  side to move can win at once, and otherwise a value of at least \<open>-1\<close>. With an
  unlimited depth and sound caches that value is \<open>-1\<close> for a lost position, \<open>0\<close> for a
  drawn one, and for a won one a positive lower bound of the score, which can exceed 1.
\<close>

theorem weak_solve_range:
  assumes "position_ok G valid" and "solver_runs G valid S" and "valid P"
  shows "\<exists>v S'. solve G P d True S = Inr (v, S') \<and>
           (if canWinNext G P then v = tdiv (cells G + 1 - int (nbMoves G P)) 2 else - 1 \<le> v) \<and>
           (d < 0 \<and> solver_ok G valid S \<and> \<not> canWinNext G P \<longrightarrow>
              (score G P < 0 \<longrightarrow> v = - 1) \<and> (score G P = 0 \<longrightarrow> v = 0) \<and>
              (0 < score G P \<longrightarrow> 1 \<le> v \<and> v \<le> score G P))"
proof (cases "canWinNext G P")
  case True
  then show ?thesis by (simp add: solve_def)
next
  case False
  from solve_loop_total [OF assms(1,3) False assms(2), of d "- 1" 1]
  obtain mn' mx' S' where l: "solve_loop G P d (- 1) 1 S = Inr ((mn', mx'), S')" "- 1 \<le> mn'"
    by blast
  show ?thesis
  proof (cases "d < 0 \<and> solver_ok G valid S")
    case True
    from weak_loop_sign [OF assms(1) _ assms(3) False, of S d] True l
    show ?thesis using False by (auto simp: solve_def)
  next
    case no: False
    with l False show ?thesis by (auto simp: solve_def)
  qed
qed

text \<open>
  C3, amended. For every position on which the loop runs (the side to move cannot win
  at once), every depth budget and every window, so for both weak settings: the snapped
  midpoint of a window \<open>min < max\<close> lies in \<open>[min, max)\<close>, so that either branch of the
  loop shrinks the window strictly, and the loop returns, with \<open>max \<le> min\<close> and a
  window inside the one it started from. With \<open>weak = false\<close>, an unlimited depth and
  sound caches it stops at \<open>min = max\<close>, the exact score of the position. (With
  \<open>weak = true\<close> it can stop at \<open>max < min\<close>, and \<open>min\<close> is then not the score.)
\<close>

theorem solve_loop_terminates:
  assumes "position_ok G valid" and "solver_runs G valid S" and "valid P" and "\<not> canWinNext G P"
  shows "(mn < mx \<longrightarrow> mn \<le> midpoint mn mx \<and> midpoint mn mx < mx) \<and>
         (\<exists>mn' mx' S'. solve_loop G P d mn mx S = Inr ((mn', mx'), S') \<and>
                        mx' \<le> mn' \<and> mn \<le> mn' \<and> mx' \<le> mx) \<and>
         (d < 0 \<and> solver_ok G valid S \<longrightarrow>
            (\<exists>S'. solve_loop G P d (tdiv (- (cells G - int (nbMoves G P))) 2)
                     (tdiv (cells G + 1 - int (nbMoves G P)) 2) S
                   = Inr ((score G P, score G P), S')))"
proof -
  from solve_loop_total [OF assms(1,3,4,2), of d mn mx]
  have "\<exists>mn' mx' S'. solve_loop G P d mn mx S = Inr ((mn', mx'), S') \<and>
                        mx' \<le> mn' \<and> mn \<le> mn' \<and> mx' \<le> mx" by blast
  moreover have "\<exists>S'. solve_loop G P d (tdiv (- (cells G - int (nbMoves G P))) 2)
                     (tdiv (cells G + 1 - int (nbMoves G P)) 2) S
                   = Inr ((score G P, score G P), S')" if "d < 0" "solver_ok G valid S"
    using solve_loop_exact [OF assms(1,3,4) that(2) solve_window [OF assms(1,3)] that(1)] by blast
  ultimately show ?thesis using midpoint_range [of mn mx] by blast
qed

section \<open>The end of a game: the assumptions hold\<close>

lemmas endgame_defs = endgame_root_def endgame_4_def endgame_5_def endgame_45_def endgame_54_def endgame_55_def endgame_545_def endgame_554_def

lemma endgame_root_played:
  "play_cols [1, 5, 6, 6, 3, 3, 3, 2, 4, 6, 0, 1, 6, 2, 2, 6, 2, 3, 2, 6, 1, 1, 5, 3, 4, 4, 0, 3, 4, 5, 5, 0, 0, 2, 4, 1, 0, 0, 1] = endgame_root"
  by (simp add: endgame_root_def c4_defs)

lemma endgame_root_win: "\<not> canWinNext connect4 endgame_root"
  by (simp add: endgame_root_def connect4_def c4_canWinNext_def c4_possible_def compute_winning_position_def bottom_mask_def board_mask_def Let_def)

lemma endgame_root_nb: "nbMoves connect4 endgame_root = 39"
  by (simp add: endgame_root_def connect4_def)

lemma endgame_root_key: "key connect4 endgame_root = 515268287180003"
  by (simp add: endgame_root_def connect4_def c4_key_def)

lemma endgame_root_legal: "legal_moves connect4 endgame_root = [8589934592, 549755813888]"
  by (simp add: legal_moves_def endgame_root_def connect4_def c4_possible_def c4_column_mask_def bottom_mask_def board_mask_def upt_rec)

lemma endgame_root_play_8589934592: "play connect4 endgame_root 8589934592 = endgame_4"
  by (simp add: endgame_root_def endgame_4_def connect4_def c4_play_def)

lemma endgame_root_play_549755813888: "play connect4 endgame_root 549755813888 = endgame_5"
  by (simp add: endgame_root_def endgame_5_def connect4_def c4_play_def)

lemma endgame_4_win: "\<not> canWinNext connect4 endgame_4"
  by (simp add: endgame_4_def connect4_def c4_canWinNext_def c4_possible_def compute_winning_position_def bottom_mask_def board_mask_def Let_def)

lemma endgame_4_nb: "nbMoves connect4 endgame_4 = 40"
  by (simp add: endgame_4_def connect4_def)

lemma endgame_4_key: "key connect4 endgame_4 = 317542645559898"
  by (simp add: endgame_4_def connect4_def c4_key_def)

lemma endgame_4_legal: "legal_moves connect4 endgame_4 = [549755813888]"
  by (simp add: legal_moves_def endgame_4_def connect4_def c4_possible_def c4_column_mask_def bottom_mask_def board_mask_def upt_rec)

lemma endgame_4_play_549755813888: "play connect4 endgame_4 549755813888 = endgame_45"
  by (simp add: endgame_4_def endgame_45_def connect4_def c4_play_def)

lemma endgame_5_win: "\<not> canWinNext connect4 endgame_5"
  by (simp add: endgame_5_def connect4_def c4_canWinNext_def c4_possible_def compute_winning_position_def bottom_mask_def board_mask_def Let_def)

lemma endgame_5_nb: "nbMoves connect4 endgame_5 = 40"
  by (simp add: endgame_5_def connect4_def)

lemma endgame_5_key: "key connect4 endgame_5 = 318083811439194"
  by (simp add: endgame_5_def connect4_def c4_key_def)

lemma endgame_5_legal: "legal_moves connect4 endgame_5 = [8589934592, 1099511627776]"
  by (simp add: legal_moves_def endgame_5_def connect4_def c4_possible_def c4_column_mask_def bottom_mask_def board_mask_def upt_rec)

lemma endgame_5_play_8589934592: "play connect4 endgame_5 8589934592 = endgame_54"
  by (simp add: endgame_5_def endgame_54_def connect4_def c4_play_def)

lemma endgame_5_play_1099511627776: "play connect4 endgame_5 1099511627776 = endgame_55"
  by (simp add: endgame_5_def endgame_55_def connect4_def c4_play_def)

lemma endgame_45_win: "canWinNext connect4 endgame_45"
  by (simp add: endgame_45_def connect4_def c4_canWinNext_def c4_possible_def compute_winning_position_def bottom_mask_def board_mask_def Let_def)

lemma endgame_45_nb: "nbMoves connect4 endgame_45 = 41"
  by (simp add: endgame_45_def connect4_def)

lemma endgame_45_key: "key connect4 endgame_45 = 515835222863075"
  by (simp add: endgame_45_def connect4_def c4_key_def)

lemma endgame_45_legal: "legal_moves connect4 endgame_45 = [1099511627776]"
  by (simp add: legal_moves_def endgame_45_def connect4_def c4_possible_def c4_column_mask_def bottom_mask_def board_mask_def upt_rec)

lemma endgame_54_win: "\<not> canWinNext connect4 endgame_54"
  by (simp add: endgame_54_def connect4_def c4_canWinNext_def c4_possible_def compute_winning_position_def bottom_mask_def board_mask_def Let_def)

lemma endgame_54_nb: "nbMoves connect4 endgame_54 = 41"
  by (simp add: endgame_54_def connect4_def)

lemma endgame_54_key: "key connect4 endgame_54 = 516376388742371"
  by (simp add: endgame_54_def connect4_def c4_key_def)

lemma endgame_54_legal: "legal_moves connect4 endgame_54 = [1099511627776]"
  by (simp add: legal_moves_def endgame_54_def connect4_def c4_possible_def c4_column_mask_def bottom_mask_def board_mask_def upt_rec)

lemma endgame_54_play_1099511627776: "play connect4 endgame_54 1099511627776 = endgame_545"
  by (simp add: endgame_54_def endgame_545_def connect4_def c4_play_def)

lemma endgame_55_win: "\<not> canWinNext connect4 endgame_55"
  by (simp add: endgame_55_def connect4_def c4_canWinNext_def c4_possible_def compute_winning_position_def bottom_mask_def board_mask_def Let_def)

lemma endgame_55_nb: "nbMoves connect4 endgame_55 = 41"
  by (simp add: endgame_55_def connect4_def)

lemma endgame_55_key: "key connect4 endgame_55 = 517467310435555"
  by (simp add: endgame_55_def connect4_def c4_key_def)

lemma endgame_55_legal: "legal_moves connect4 endgame_55 = [8589934592]"
  by (simp add: legal_moves_def endgame_55_def connect4_def c4_possible_def c4_column_mask_def bottom_mask_def board_mask_def upt_rec)

lemma endgame_55_play_8589934592: "play connect4 endgame_55 8589934592 = endgame_554"
  by (simp add: endgame_55_def endgame_554_def connect4_def c4_play_def)

lemma endgame_545_win: "\<not> canWinNext connect4 endgame_545"
  by (simp add: endgame_545_def connect4_def c4_canWinNext_def c4_possible_def compute_winning_position_def bottom_mask_def board_mask_def Let_def)

lemma endgame_545_nb: "nbMoves connect4 endgame_545 = 42"
  by (simp add: endgame_545_def connect4_def)

lemma endgame_545_key: "key connect4 endgame_545 = 319200502936154"
  by (simp add: endgame_545_def connect4_def c4_key_def)

lemma endgame_545_legal: "legal_moves connect4 endgame_545 = []"
  by (simp add: legal_moves_def endgame_545_def connect4_def c4_possible_def c4_column_mask_def bottom_mask_def board_mask_def upt_rec)

lemma endgame_554_win: "\<not> canWinNext connect4 endgame_554"
  by (simp add: endgame_554_def connect4_def c4_canWinNext_def c4_possible_def compute_winning_position_def bottom_mask_def board_mask_def Let_def)

lemma endgame_554_nb: "nbMoves connect4 endgame_554 = 42"
  by (simp add: endgame_554_def connect4_def)

lemma endgame_554_key: "key connect4 endgame_554 = 320291424629338"
  by (simp add: endgame_554_def connect4_def c4_key_def)

lemma endgame_554_legal: "legal_moves connect4 endgame_554 = []"
  by (simp add: legal_moves_def endgame_554_def connect4_def c4_possible_def c4_column_mask_def bottom_mask_def board_mask_def upt_rec)

lemma endgame_545_score: "score connect4 endgame_545 = 0"
  by (rule score_full) (simp add: cells_connect4 endgame_545_nb)

lemma endgame_554_score: "score connect4 endgame_554 = 0"
  by (rule score_full) (simp add: cells_connect4 endgame_554_nb)

lemma endgame_54_score: "score connect4 endgame_54 = 0"
  by (subst score_step)
     (simp_all add: endgame_54_win cells_connect4 endgame_54_nb endgame_54_legal
        endgame_54_play_1099511627776 endgame_545_nb endgame_545_score)

lemma endgame_55_score: "score connect4 endgame_55 = 0"
  by (subst score_step)
     (simp_all add: endgame_55_win cells_connect4 endgame_55_nb endgame_55_legal
        endgame_55_play_8589934592 endgame_554_nb endgame_554_score)

lemma endgame_45_score: "score connect4 endgame_45 = 1"
  by (subst score_win_step) (simp_all add: endgame_45_win cells_connect4 endgame_45_nb)

lemma endgame_5_score: "score connect4 endgame_5 = 0"
  by (subst score_step)
     (simp_all add: endgame_5_win cells_connect4 endgame_5_nb endgame_5_legal
        endgame_5_play_8589934592 endgame_5_play_1099511627776 endgame_54_nb endgame_55_nb
        endgame_54_score endgame_55_score)

lemma endgame_4_score: "score connect4 endgame_4 = - 1"
  by (subst score_step)
     (simp_all add: endgame_4_win cells_connect4 endgame_4_nb endgame_4_legal
        endgame_4_play_549755813888 endgame_45_nb endgame_45_score)

lemma endgame_root_score: "score connect4 endgame_root = 1"
  by (subst score_step)
     (simp_all add: endgame_root_win cells_connect4 endgame_root_nb endgame_root_legal
        endgame_root_play_8589934592 endgame_root_play_549755813888 endgame_4_nb endgame_5_nb
        endgame_4_score endgame_5_score)

lemma endgame_valid_cases:
  "endgame_valid P \<longleftrightarrow> P = endgame_root \<or> P = endgame_4 \<or> P = endgame_5 \<or> P = endgame_45 \<or>
     P = endgame_54 \<or> P = endgame_55 \<or> P = endgame_545 \<or> P = endgame_554"
  by (simp add: endgame_valid_def endgame_def)

lemmas endgame_facts =
  endgame_root_win endgame_4_win endgame_5_win endgame_45_win endgame_54_win endgame_55_win
  endgame_545_win endgame_554_win
  endgame_root_nb endgame_4_nb endgame_5_nb endgame_45_nb endgame_54_nb endgame_55_nb
  endgame_545_nb endgame_554_nb
  endgame_root_legal endgame_4_legal endgame_5_legal endgame_45_legal endgame_54_legal
  endgame_55_legal endgame_545_legal endgame_554_legal
  endgame_root_play_8589934592 endgame_root_play_549755813888 endgame_4_play_549755813888
  endgame_5_play_8589934592 endgame_5_play_1099511627776 endgame_54_play_1099511627776
  endgame_55_play_8589934592
  endgame_root_score endgame_4_score endgame_5_score endgame_45_score endgame_54_score
  endgame_55_score endgame_545_score endgame_554_score

lemma endgame_root_non_losing: "non_losing_ok endgame_root"
  unfolding non_losing_ok_def all_less_7 ex_less_7
  by (simp add: endgame_root_def c4_defs Let_def)

lemma endgame_4_non_losing: "non_losing_ok endgame_4"
  unfolding non_losing_ok_def all_less_7 ex_less_7
  by (simp add: endgame_4_def c4_defs Let_def)

lemma endgame_5_non_losing: "non_losing_ok endgame_5"
  unfolding non_losing_ok_def all_less_7 ex_less_7
  by (simp add: endgame_5_def c4_defs Let_def)

lemma endgame_54_non_losing: "non_losing_ok endgame_54"
  unfolding non_losing_ok_def all_less_7 ex_less_7
  by (simp add: endgame_54_def c4_defs Let_def)

lemma endgame_55_non_losing: "non_losing_ok endgame_55"
  unfolding non_losing_ok_def all_less_7 ex_less_7
  by (simp add: endgame_55_def c4_defs Let_def)

lemma endgame_545_non_losing: "non_losing_ok endgame_545"
  unfolding non_losing_ok_def all_less_7 ex_less_7
  by (simp add: endgame_545_def c4_defs Let_def)

lemma endgame_554_non_losing: "non_losing_ok endgame_554"
  unfolding non_losing_ok_def all_less_7 ex_less_7
  by (simp add: endgame_554_def c4_defs Let_def)

lemma endgame_keys: "distinct (map (key connect4) endgame)"
  by (simp add: endgame_def endgame_root_key endgame_4_key endgame_5_key endgame_45_key
      endgame_54_key endgame_55_key endgame_545_key endgame_554_key)

lemma endgame_non_losing_all:
  "endgame_valid P \<Longrightarrow> \<not> canWinNext connect4 P \<Longrightarrow> non_losing_ok P"
  unfolding endgame_valid_cases
  by (elim disjE;
      simp add: endgame_root_non_losing endgame_4_non_losing endgame_5_non_losing
        endgame_54_non_losing endgame_55_non_losing endgame_545_non_losing endgame_554_non_losing
        endgame_45_win)

lemma endgame_nb: "endgame_valid P \<Longrightarrow> int (nbMoves connect4 P) \<le> cells connect4"
  unfolding endgame_valid_cases
  by (elim disjE; simp add: endgame_facts cells_connect4)

lemma endgame_has_move:
  "endgame_valid P \<Longrightarrow> int (nbMoves connect4 P) < cells connect4 \<Longrightarrow> legal_moves connect4 P \<noteq> []"
  unfolding endgame_valid_cases
  by (elim disjE; simp add: endgame_facts cells_connect4)

lemma endgame_play:
  "endgame_valid P \<Longrightarrow> \<not> canWinNext connect4 P \<Longrightarrow> m \<in> set (legal_moves connect4 P) \<Longrightarrow>
     endgame_valid (play connect4 P m) \<and> nbMoves connect4 (play connect4 P m) = nbMoves connect4 P + 1"
  unfolding endgame_valid_cases [of P]
  by (elim disjE; auto simp add: endgame_facts endgame_valid_cases)

lemma endgame_range:
  "endgame_valid P \<Longrightarrow> \<not> canWinNext connect4 P \<Longrightarrow>
     MIN_SCORE connect4 \<le> score connect4 P \<and> score connect4 P \<le> MAX_SCORE connect4"
  unfolding endgame_valid_cases
  by (elim disjE; simp add: endgame_facts; simp add: connect4_def)

lemma endgame_position_ok: "position_ok connect4 endgame_valid"
proof -
  have w: "WIDTH connect4 = 7" by (simp add: connect4_def)
  have inj: "inj_on (key connect4) (set endgame)"
    using endgame_keys by (simp add: distinct_map)
  have keys: "score connect4 P = score connect4 Q"
    if "endgame_valid P" "endgame_valid Q" "key connect4 P = key connect4 Q" for P Q
  proof -
    from inj that have "P = Q" unfolding endgame_valid_def inj_on_def by blast
    then show ?thesis by simp
  qed
  note nl = endgame_non_losing_all [unfolded non_losing_ok_def]
  have c1: "\<forall>P. endgame_valid P \<longrightarrow> int (nbMoves connect4 P) \<le> cells connect4"
    using endgame_nb by blast
  have c2: "\<forall>P. endgame_valid P \<longrightarrow> int (nbMoves connect4 P) < cells connect4 \<longrightarrow>
              legal_moves connect4 P \<noteq> []"
    using endgame_has_move by blast
  have c3: "\<forall>P m. endgame_valid P \<longrightarrow> \<not> canWinNext connect4 P \<longrightarrow>
              m \<in> set (legal_moves connect4 P) \<longrightarrow>
              endgame_valid (play connect4 P m) \<and>
              nbMoves connect4 (play connect4 P m) = nbMoves connect4 P + 1"
    using endgame_play by blast
  have c4: "\<forall>P c. endgame_valid P \<longrightarrow> \<not> canWinNext connect4 P \<longrightarrow> c < 7 \<longrightarrow>
              possibleNonLosingMoves connect4 P AND column_mask connect4 (int c) =
              (if possible connect4 P AND column_mask connect4 (int c) \<noteq> 0 \<and>
                  \<not> canWinNext connect4
                      (play connect4 P (possible connect4 P AND column_mask connect4 (int c)))
               then possible connect4 P AND column_mask connect4 (int c) else 0)"
  proof (intro allI impI)
    fix P c assume "endgame_valid P" "\<not> canWinNext connect4 P" "c < (7::nat)"
    from nl [OF this(1,2)] this(3) show "possibleNonLosingMoves connect4 P AND column_mask connect4 (int c) =
              (if possible connect4 P AND column_mask connect4 (int c) \<noteq> 0 \<and>
                  \<not> canWinNext connect4
                      (play connect4 P (possible connect4 P AND column_mask connect4 (int c)))
               then possible connect4 P AND column_mask connect4 (int c) else 0)"
      by blast
  qed
  have c5: "\<forall>P. endgame_valid P \<longrightarrow> \<not> canWinNext connect4 P \<longrightarrow>
              possibleNonLosingMoves connect4 P \<noteq> 0 \<longrightarrow>
              (\<exists>c < 7. possibleNonLosingMoves connect4 P AND column_mask connect4 (int c) \<noteq> 0)"
  proof (intro allI impI)
    fix P assume "endgame_valid P" "\<not> canWinNext connect4 P" "possibleNonLosingMoves connect4 P \<noteq> 0"
    from nl [OF this(1,2)] this(3)
    show "\<exists>c < 7. possibleNonLosingMoves connect4 P AND column_mask connect4 (int c) \<noteq> 0"
      by blast
  qed
  have c6: "\<forall>P Q. endgame_valid P \<longrightarrow> endgame_valid Q \<longrightarrow> key connect4 P = key connect4 Q \<longrightarrow>
              score connect4 P = score connect4 Q"
    using keys by blast
  have c7: "\<forall>P. endgame_valid P \<longrightarrow> \<not> canWinNext connect4 P \<longrightarrow>
              MIN_SCORE connect4 \<le> score connect4 P \<and> score connect4 P \<le> MAX_SCORE connect4"
    using endgame_range by blast
  have c8: "MIN_SCORE connect4 \<le> MAX_SCORE connect4"
    "2 * (MAX_SCORE connect4 - MIN_SCORE connect4) + 2 < 256"
    "MIN_SCORE connect4 - 2 \<le> - ((cells connect4 - 2) div 2)"
    "(cells connect4 - 1) div 2 \<le> MAX_SCORE connect4 + 2"
    by (simp_all add: cells_connect4) (simp_all add: connect4_def)
  show ?thesis
    unfolding position_ok_def w
    by (intro conjI c1 c2 c3 c4 c5 c6 c7 c8)
qed

section \<open>Concrete runs\<close>

lemma solver_ok_new: "solver_ok G valid (Solver_new G)"
proof -
  have "book_sound G valid (book (Solver_new G))"
    by (simp add: book_sound_def Solver_new_def OpeningBook_get_def OpeningBook_empty_def)
  moreover have "table_sound G valid (transTable (Solver_new G))"
    by (simp add: table_sound_def Solver_new_def TranspositionTable_get_def)
  ultimately show ?thesis by (simp add: solver_ok_def)
qed

lemma endgame_root_valid: "endgame_valid endgame_root"
  by (simp add: endgame_valid_cases)

theorem negamax_correct_witness:
  "position_ok connect4 endgame_valid \<and>
   solver_ok connect4 endgame_valid (Solver_new connect4) \<and>
   endgame_valid endgame_root \<and> \<not> canWinNext connect4 endgame_root \<and>
   (0 :: int) < 2 \<and> (- 1 :: int) < 0 \<and> score connect4 endgame_root = 1 \<and>
   (\<exists>S'. negamax connect4 endgame_root 0 2 (- 1) (Solver_new connect4) = Inr (1, S') \<and>
         solver_ok connect4 endgame_valid S')"
proof -
  have h: "(0 :: int) < 2" "(- 1 :: int) < 0" by simp_all
  from negamax_correct [OF endgame_position_ok solver_ok_new endgame_root_valid endgame_root_win h]
  obtain v S' where n: "negamax connect4 endgame_root 0 2 (- 1) (Solver_new connect4) = Inr (v, S')"
    and e: "0 < score connect4 endgame_root \<and> score connect4 endgame_root < 2
            \<longrightarrow> v = score connect4 endgame_root"
    and S': "solver_ok connect4 endgame_valid S'" by blast
  from e have "v = 1" by (simp add: endgame_root_score)
  with n S' show ?thesis
    using endgame_position_ok solver_ok_new endgame_root_valid endgame_root_win endgame_root_score
    by auto
qed


theorem weak_solve_range_witness:
  "position_ok connect4 endgame_valid \<and>
   solver_runs connect4 endgame_valid (Solver_new connect4) \<and>
   endgame_valid endgame_root \<and>
   (\<exists>S'. solve connect4 endgame_root (- 1) True (Solver_new connect4) = Inr (1, S'))"
proof -
  note r = solver_ok_runs [OF solver_ok_new, of connect4 endgame_valid]
  from weak_solve_range [OF endgame_position_ok r endgame_root_valid, of "- 1"]
  obtain v S' where s: "solve connect4 endgame_root (- 1) True (Solver_new connect4) = Inr (v, S')"
    and c: "(- 1 :: int) < 0 \<and> solver_ok connect4 endgame_valid (Solver_new connect4) \<and>
            \<not> canWinNext connect4 endgame_root \<longrightarrow>
            (0 < score connect4 endgame_root \<longrightarrow> 1 \<le> v \<and> v \<le> score connect4 endgame_root)"
    by blast
  from c have "v = 1" using solver_ok_new [of connect4 endgame_valid]
    by (simp add: endgame_root_score endgame_root_win)
  with s show ?thesis using endgame_position_ok r endgame_root_valid by auto
qed

theorem solve_loop_terminates_witness:
  "position_ok connect4 endgame_valid \<and>
   solver_runs connect4 endgame_valid (Solver_new connect4) \<and>
   endgame_valid endgame_root \<and> \<not> canWinNext connect4 endgame_root \<and>
   - 1 \<le> midpoint (- 1) 1 \<and> midpoint (- 1) 1 < 1 \<and>
   (\<exists>mn' mx' S'. solve_loop connect4 endgame_root (- 1) (- 1) 1 (Solver_new connect4)
                    = Inr ((mn', mx'), S') \<and> mx' \<le> mn' \<and> - 1 \<le> mn' \<and> mx' \<le> 1) \<and>
   (\<exists>S'. solve_loop connect4 endgame_root (- 1) (- 1) 2 (Solver_new connect4) = Inr ((1, 1), S'))"
proof -
  note r = solver_ok_runs [OF solver_ok_new, of connect4 endgame_valid]
  have w: "tdiv (- (cells connect4 - int (nbMoves connect4 endgame_root))) 2 = - 1"
    "tdiv (cells connect4 + 1 - int (nbMoves connect4 endgame_root)) 2 = 2"
    by (simp_all add: cells_connect4 endgame_root_nb tdiv_def)
  from solve_loop_terminates [OF endgame_position_ok r endgame_root_valid endgame_root_win,
      of "- 1" 1 "- 1", unfolded w endgame_root_score]
  show ?thesis
    using endgame_position_ok r endgame_root_valid endgame_root_win
      solver_ok_new [of connect4 endgame_valid]
    by (simp add: w endgame_root_score)
qed

text \<open>
  C4, as claimed, fails: on a position whose side to move has three stones in a column
  with the fourth cell free, \<open>solve\<close> with \<open>weak = true\<close> returns 18.
\<close>

theorem weak_solve_counterexample:
  "solve connect4 (play_cols [3, 0, 3, 0, 3, 0]) (- 1) True (Solver_new connect4)
     = Inr (18, Solver_new connect4) \<and> (18 :: int) \<notin> {- 1, 0, 1}"
proof -
  have w: "canWinNext connect4 (play_cols [3, 0, 3, 0, 3, 0])"
    by (simp add: three_in_column) (simp add: c4_defs)
  show ?thesis
    using w by (simp add: solve_def three_in_column) (simp add: connect4_def cells_def tdiv_def)
qed

lemma lost_at_once:
  "negamax connect4 (play_cols [3, 3, 2, 2, 4]) alpha beta d S = Inr (- 18, S)"
  using double_threat_no_defence
  by (simp add: negamax_def Let_def) (simp add: double_threat connect4_def cells_def tdiv_def)

text \<open>
  C3, as claimed, fails for \<open>weak = true\<close>: on a position whose side to move faces a double
  threat the loop stops at \<open>min = -1\<close>, \<open>max = -18\<close>, and \<open>solve\<close> returns \<open>-1\<close>, while the
  exact score, which \<open>weak = false\<close> returns, is \<open>-18\<close>.
\<close>

theorem weak_loop_counterexample:
  "solve_loop connect4 (play_cols [3, 3, 2, 2, 4]) (- 1) (- 1) 1 (Solver_new connect4)
     = Inr ((- 1, - 18), Solver_new connect4) \<and>
   solve connect4 (play_cols [3, 3, 2, 2, 4]) (- 1) True (Solver_new connect4)
     = Inr (- 1, Solver_new connect4) \<and>
   solve connect4 (play_cols [3, 3, 2, 2, 4]) (- 1) False (Solver_new connect4)
     = Inr (- 18, Solver_new connect4)"
proof -
  have l1: "solve_loop connect4 (play_cols [3, 3, 2, 2, 4]) (- 1) (- 1) 1 (Solver_new connect4)
     = Inr ((- 1, - 18), Solver_new connect4)"
    by (subst solve_loop_step [OF _ lost_at_once]) (simp_all add: midpoint_weak solve_loop_exit)
  have m: "midpoint (- 18) 19 = - 9"
    by (simp add: midpoint_def tdiv_def)
  have l2: "solve_loop connect4 (play_cols [3, 3, 2, 2, 4]) (- 1) (- 18) 19 (Solver_new connect4)
     = Inr ((- 18, - 18), Solver_new connect4)"
    by (subst solve_loop_step [OF _ lost_at_once]) (simp_all add: m solve_loop_exit)
  have c: "cells connect4 = 42" "nbMoves connect4 (play_cols [3, 3, 2, 2, 4]) = 5"
    by (simp_all add: cells_def connect4_def double_threat)
  show ?thesis
    using double_threat_no_win l1 l2 by (simp add: solve_def c tdiv_def)
qed

















end
